theory Spec2Isabelle
  imports Complex_Main "HOL-Library.Word"
begin

unbundle bit_operations_syntax

section \<open>Strings and characters\<close>

text \<open>
  The program is JavaScript. Its strings are modelled as HOL strings, so a character is a
  code unit in the range 0..255; the tables below are the restriction of JavaScript's
  character classes to that range. An absent or \<open>undefined\<close> property is \<open>None\<close>.
\<close>

definition is_space :: "char \<Rightarrow> bool" where
  \<comment> \<open>the regular expression class \<open>\s\<close>, and what \<open>String.prototype.trim\<close> strips\<close>
  "is_space c = (c \<in> set [CHR 0x09, CHR 0x0A, CHR 0x0B, CHR 0x0C, CHR 0x0D, CHR 0x20, CHR 0xA0])"

definition is_word :: "char \<Rightarrow> bool" where
  \<comment> \<open>the regular expression class \<open>\w\<close>: \<open>[A-Za-z0-9_]\<close>\<close>
  "is_word c = (let n = (of_char c :: nat) in
     (48 \<le> n \<and> n \<le> 57) \<or> (65 \<le> n \<and> n \<le> 90) \<or> n = 95 \<or> (97 \<le> n \<and> n \<le> 122))"

definition is_line_terminator :: "char \<Rightarrow> bool" where
  \<comment> \<open>what the regular expression \<open>.\<close> refuses\<close>
  "is_line_terminator c = (c = CHR 0x0A \<or> c = CHR 0x0D)"

definition trim :: "string \<Rightarrow> string" where
  "trim s = rev (dropWhile is_space (rev (dropWhile is_space s)))"

fun split_on :: "char \<Rightarrow> string \<Rightarrow> string list" where
  \<comment> \<open>\<open>s.split(c)\<close> for a one-character separator: the empty string gives one empty piece\<close>
  "split_on c [] = [[]]"
| "split_on c (x # xs) =
     (if x = c then [] # split_on c xs
      else (let r = split_on c xs in (x # hd r) # tl r))"

definition lower_char :: "char \<Rightarrow> char" where
  "lower_char c = (let n = (of_char c :: nat) in
     if (65 \<le> n \<and> n \<le> 90) \<or> (192 \<le> n \<and> n \<le> 222 \<and> n \<noteq> 215) then char_of (n + 32) else c)"

definition toLowerCase :: "string \<Rightarrow> string" where
  "toLowerCase s = map lower_char s"

definition starts_with :: "string \<Rightarrow> string \<Rightarrow> bool" where
  "starts_with s p = (take (length p) s = p)"

fun includes_str :: "string \<Rightarrow> string \<Rightarrow> bool" where
  \<comment> \<open>\<open>s.includes(p)\<close>: \<open>p\<close> occurs somewhere in \<open>s\<close>\<close>
  "includes_str [] p = (p = [])"
| "includes_str (c # cs) p = (starts_with (c # cs) p \<or> includes_str cs p)"

definition substring0 :: "string \<Rightarrow> nat \<Rightarrow> string" where
  \<comment> \<open>\<open>s.substring(0, n)\<close>\<close>
  "substring0 s n = take n s"

definition digit_char :: "nat \<Rightarrow> char" where
  "digit_char d = char_of (48 + d)"

function show_nat :: "nat \<Rightarrow> string" where
  \<comment> \<open>the decimal numeral a template literal prints for a non-negative integer\<close>
  "show_nat n = (if n < 10 then [digit_char n] else show_nat (n div 10) @ [digit_char (n mod 10)])"
  by pat_completeness auto
termination
  by (relation "measure id") auto

declare show_nat.simps [simp del]

definition show_int :: "int \<Rightarrow> string" where
  "show_int i = (if i < 0 then CHR ''-'' # show_nat (nat (- i)) else show_nat (nat i))"

definition js_str :: "string option \<Rightarrow> string" where
  \<comment> \<open>how a template literal prints a value that may be \<open>undefined\<close>\<close>
  "js_str v = (case v of None \<Rightarrow> ''undefined'' | Some s \<Rightarrow> s)"

definition js_or :: "string option \<Rightarrow> string option \<Rightarrow> string option" where
  \<comment> \<open>\<open>a || b\<close> on strings: \<open>undefined\<close> and the empty string are falsy\<close>
  "js_or a b = (case a of None \<Rightarrow> b | Some s \<Rightarrow> if s = [] then b else Some s)"

section \<open>Regular expressions\<close>

text \<open>
  A backtracking matcher for the fragment of JavaScript's regular expressions that the
  parser uses: literals, the classes \<open>\s\<close>, \<open>\w\<close> and \<open>.\<close>, sequence, alternation, the greedy
  and the lazy star, the optional \<open>?\<close>, capture groups, \<open>^\<close> and \<open>\b\<close>. As in the language
  definition, a matcher takes the current state and a continuation and returns the first
  success in priority order; an iteration of a star that consumes nothing is refused.
\<close>

datatype cclass = CSpace | CWord | CDot

fun in_class :: "cclass \<Rightarrow> char \<Rightarrow> bool" where
  "in_class CSpace c = is_space c"
| "in_class CWord c = is_word c"
| "in_class CDot c = (\<not> is_line_terminator c)"

datatype regex =
    REps
  | RLit char
  | RCls cclass
  | RSeq regex regex
  | RAlt regex regex
  | RStar regex
  | RLazyStar regex
  | ROpt regex
  | RGroup nat regex
  | RBol
  | RWordB

record mstate =
  seen :: string  \<comment> \<open>the input before the current position, last character first\<close>
  rest :: string  \<comment> \<open>the input from the current position on\<close>
  caps :: "(nat \<times> string) list"  \<comment> \<open>the capture groups that took part, latest first\<close>

type_synonym cont = "mstate \<Rightarrow> mstate option"

definition advance :: "mstate \<Rightarrow> mstate" where
  "advance st = st\<lparr>seen := hd (rest st) # seen st, rest := tl (rest st)\<rparr>"

definition at_word_boundary :: "mstate \<Rightarrow> bool" where
  "at_word_boundary st =
     ((case seen st of [] \<Rightarrow> False | c # _ \<Rightarrow> is_word c) \<noteq>
      (case rest st of [] \<Rightarrow> False | c # _ \<Rightarrow> is_word c))"

definition consumed :: "mstate \<Rightarrow> mstate \<Rightarrow> string" where
  "consumed st st' = take (length (rest st) - length (rest st')) (rest st)"

primrec star_greedy :: "(mstate \<Rightarrow> cont \<Rightarrow> mstate option) \<Rightarrow> nat \<Rightarrow> mstate \<Rightarrow> cont \<Rightarrow> mstate option" where
  "star_greedy m 0 = (\<lambda>st k. k st)"
| "star_greedy m (Suc n) = (\<lambda>st k.
     (case m st (\<lambda>st'. if length (rest st') < length (rest st) then star_greedy m n st' k else None) of
        Some r \<Rightarrow> Some r
      | None \<Rightarrow> k st))"

primrec star_lazy :: "(mstate \<Rightarrow> cont \<Rightarrow> mstate option) \<Rightarrow> nat \<Rightarrow> mstate \<Rightarrow> cont \<Rightarrow> mstate option" where
  "star_lazy m 0 = (\<lambda>st k. k st)"
| "star_lazy m (Suc n) = (\<lambda>st k.
     (case k st of
        Some r \<Rightarrow> Some r
      | None \<Rightarrow> m st (\<lambda>st'. if length (rest st') < length (rest st) then star_lazy m n st' k else None)))"

primrec rmatch :: "regex \<Rightarrow> mstate \<Rightarrow> cont \<Rightarrow> mstate option" where
  "rmatch REps = (\<lambda>st k. k st)"
| "rmatch (RLit c) = (\<lambda>st k.
     case rest st of [] \<Rightarrow> None | x # _ \<Rightarrow> if x = c then k (advance st) else None)"
| "rmatch (RCls cl) = (\<lambda>st k.
     case rest st of [] \<Rightarrow> None | x # _ \<Rightarrow> if in_class cl x then k (advance st) else None)"
| "rmatch (RSeq a b) = (\<lambda>st k. rmatch a st (\<lambda>st'. rmatch b st' k))"
| "rmatch (RAlt a b) = (\<lambda>st k. case rmatch a st k of Some r \<Rightarrow> Some r | None \<Rightarrow> rmatch b st k)"
| "rmatch (RStar a) = (\<lambda>st k. star_greedy (rmatch a) (length (rest st)) st k)"
| "rmatch (RLazyStar a) = (\<lambda>st k. star_lazy (rmatch a) (length (rest st)) st k)"
| "rmatch (ROpt a) = (\<lambda>st k. case rmatch a st k of Some r \<Rightarrow> Some r | None \<Rightarrow> k st)"
| "rmatch (RGroup i a) = (\<lambda>st k.
     rmatch a st (\<lambda>st'. k (st'\<lparr>caps := (i, consumed st st') # caps st'\<rparr>)))"
| "rmatch RBol = (\<lambda>st k. if seen st = [] then k st else None)"
| "rmatch RWordB = (\<lambda>st k. if at_word_boundary st then k st else None)"

fun exec_from :: "regex \<Rightarrow> string \<Rightarrow> string \<Rightarrow> mstate option" where
  \<comment> \<open>the leftmost match: try the current position, then move one character on\<close>
  "exec_from r bs [] = rmatch r \<lparr>seen = bs, rest = [], caps = []\<rparr> Some"
| "exec_from r bs (c # cs) =
     (case rmatch r \<lparr>seen = bs, rest = c # cs, caps = []\<rparr> Some of
        Some st \<Rightarrow> Some st
      | None \<Rightarrow> exec_from r (c # bs) cs)"

definition exec :: "regex \<Rightarrow> string \<Rightarrow> mstate option" where
  \<comment> \<open>\<open>line.match(r)\<close> for a regular expression without flags; \<open>None\<close> is \<open>null\<close>\<close>
  "exec r s = exec_from r [] s"

definition test :: "regex \<Rightarrow> string \<Rightarrow> bool" where
  "test r s = (exec r s \<noteq> None)"

definition cap :: "mstate \<Rightarrow> nat \<Rightarrow> string option" where
  \<comment> \<open>\<open>match[i]\<close>: \<open>None\<close> for a group that did not take part\<close>
  "cap st i = map_of (caps st) i"

fun str :: "string \<Rightarrow> regex" where
  "str [] = REps"
| "str [c] = RLit c"
| "str (c # cs) = RSeq (RLit c) (str cs)"

fun cat :: "regex list \<Rightarrow> regex" where
  "cat [] = REps"
| "cat [r] = r"
| "cat (r # rs) = RSeq r (cat rs)"

fun alts :: "regex list \<Rightarrow> regex" where
  "alts [] = REps"
| "alts [r] = r"
| "alts (r # rs) = RAlt r (alts rs)"

definition some :: "regex \<Rightarrow> regex" where
  \<comment> \<open>\<open>r+\<close>, used on one-character classes only\<close>
  "some r = RSeq r (RStar r)"

definition ws :: regex where
  "ws = RStar (RCls CSpace)"

definition ws1 :: regex where
  "ws1 = some (RCls CSpace)"

definition ident :: regex where
  "ident = some (RCls CWord)"

definition lazy_any :: regex where
  \<comment> \<open>\<open>.*?\<close>\<close>
  "lazy_any = RLazyStar (RCls CDot)"

fun count_and_or :: "string \<Rightarrow> nat" where
  \<comment> \<open>\<open>(s.match(/&&|\|\|/g) || []).length\<close>: the matches found left to right, each search
      starting where the previous match ended\<close>
  "count_and_or (a # b # cs) =
     (if (a = CHR ''&'' \<and> b = CHR ''&'') \<or> (a = CHR ''|'' \<and> b = CHR ''|'')
      then Suc (count_and_or cs) else count_and_or (b # cs))"
| "count_and_or _ = 0"

section \<open>The parser (\<open>js/parser.js\<close>)\<close>

subsection \<open>Language patterns\<close>

record patterns =
  p_variable :: "regex option"
  p_function :: "regex option"
  p_if :: "regex option"
  p_for :: "regex option"
  p_while :: "regex option"
  p_return :: "regex option"
  p_assignment :: "regex option"
  p_comment :: "regex option"
  p_import :: "regex option"
  p_export :: "regex option"
  p_class :: "regex option"
  p_include :: "regex option"

definition c_style_head :: "string \<Rightarrow> regex" where
  \<comment> \<open>\<open>/^\s*kw\s*\(/\<close>\<close>
  "c_style_head kw = cat [RBol, ws, str kw, ws, RLit CHR ''('']"

definition py_style_head :: "string \<Rightarrow> regex" where
  \<comment> \<open>\<open>/^\s*kw\s+/\<close>\<close>
  "py_style_head kw = cat [RBol, ws, str kw, ws1]"

definition return_re :: regex where
  \<comment> \<open>\<open>/^\s*return\b/\<close>\<close>
  "return_re = cat [RBol, ws, str ''return'', RWordB]"

definition slash_comment_re :: regex where
  \<comment> \<open>\<open>/^\s*(\/\/|\/\*)/\<close>\<close>
  "slash_comment_re = cat [RBol, ws, RGroup 1 (alts [str ''//'', str ''/*''])]"

definition typed_variable_re :: "string list \<Rightarrow> regex" where
  \<comment> \<open>\<open>/^\s*(t1|t2|...)\s+(\w+)/\<close>\<close>
  "typed_variable_re ts = cat [RBol, ws, RGroup 1 (alts (map str ts)), ws1, RGroup 2 ident]"

definition assignment_re :: regex where
  \<comment> \<open>\<open>/^\s*(\w+)\s*=/\<close>\<close>
  "assignment_re = cat [RBol, ws, RGroup 1 ident, ws, RLit CHR ''='']"

definition javascript_patterns :: patterns where
  "javascript_patterns = \<lparr>
     p_variable = Some (typed_variable_re [''let'', ''const'', ''var'']),
     p_function = Some (cat [RBol, ws, str ''function'', ws1, RGroup 1 ident, ws, RLit CHR ''('']),
     p_if = Some (c_style_head ''if''),
     p_for = Some (c_style_head ''for''),
     p_while = Some (c_style_head ''while''),
     p_return = Some return_re,
     p_assignment = Some assignment_re,
     p_comment = Some slash_comment_re,
     p_import = Some (cat [RBol, ws, str ''import'', RWordB]),
     p_export = Some (cat [RBol, ws, str ''export'', RWordB]),
     p_class = None,
     p_include = None\<rparr>"

definition python_patterns :: patterns where
  "python_patterns = \<lparr>
     p_variable = Some assignment_re,
     p_function = Some (cat [RBol, ws, str ''def'', ws1, RGroup 1 ident, ws, RLit CHR ''('']),
     p_if = Some (py_style_head ''if''),
     p_for = Some (py_style_head ''for''),
     p_while = Some (py_style_head ''while''),
     p_return = Some return_re,
     p_assignment = None,
     p_comment = Some (cat [RBol, ws, RLit CHR ''#'']),
     p_import = Some (cat [RBol, ws, RGroup 1 (alts [str ''import'', str ''from'']), ws1]),
     p_export = None,
     p_class = Some (cat [RBol, ws, str ''class'', ws1, RGroup 1 ident]),
     p_include = None\<rparr>"

definition java_patterns :: patterns where
  "java_patterns = \<lparr>
     p_variable = Some (typed_variable_re
       [''int'', ''float'', ''double'', ''String'', ''boolean'', ''char'']),
     p_function = Some (cat [RBol, ws,
       ROpt (RGroup 1 (alts [str ''public'', str ''private'', str ''protected''])), ws,
       ROpt (RGroup 2 (str ''static'')), ws, ident, ws1, RGroup 3 ident, ws, RLit CHR ''('']),
     p_if = Some (c_style_head ''if''),
     p_for = Some (c_style_head ''for''),
     p_while = Some (c_style_head ''while''),
     p_return = Some return_re,
     p_assignment = None,
     p_comment = Some slash_comment_re,
     p_import = Some (cat [RBol, ws, str ''import'', ws1]),
     p_export = None,
     p_class = Some (cat [RBol, ws, ROpt (RGroup 1 (alts [str ''public'', str ''private''])), ws,
       str ''class'', ws1, RGroup 2 ident]),
     p_include = None\<rparr>"

definition cpp_patterns :: patterns where
  "cpp_patterns = \<lparr>
     p_variable = Some (typed_variable_re
       [''int'', ''float'', ''double'', ''string'', ''char'', ''bool'']),
     p_function = Some (cat [RBol, ws, ident, ws1, RGroup 1 ident, ws, RLit CHR ''('']),
     p_if = Some (c_style_head ''if''),
     p_for = Some (c_style_head ''for''),
     p_while = Some (c_style_head ''while''),
     p_return = Some return_re,
     p_assignment = None,
     p_comment = Some slash_comment_re,
     p_import = None,
     p_export = None,
     p_class = None,
     p_include = Some (cat [RBol, ws, str ''#include''])\<rparr>"

definition no_patterns :: patterns where
  \<comment> \<open>an object that has none of the rule properties\<close>
  "no_patterns = \<lparr>
     p_variable = None, p_function = None, p_if = None, p_for = None, p_while = None,
     p_return = None, p_assignment = None, p_comment = None, p_import = None, p_export = None,
     p_class = None, p_include = None\<rparr>"

definition object_prototype_members :: "string list" where
  \<comment> \<open>the property names that every object literal inherits from \<open>Object.prototype\<close>\<close>
  "object_prototype_members =
     [''constructor'', ''hasOwnProperty'', ''isPrototypeOf'', ''propertyIsEnumerable'',
      ''toLocaleString'', ''toString'', ''valueOf'', ''__proto__'', ''__defineGetter__'',
      ''__defineSetter__'', ''__lookupGetter__'', ''__lookupSetter__'']"

definition getLanguagePatterns :: "string \<Rightarrow> patterns" where
  \<comment> \<open>\<open>patterns[language] || patterns.javascript\<close>. The table is an object literal, so the
      lookup of an inherited name finds a member of \<open>Object.prototype\<close>: a function or an
      object, which counts as true and has no rule, and the default is not taken.\<close>
  "getLanguagePatterns language =
     (if language = ''javascript'' then javascript_patterns
      else if language = ''python'' then python_patterns
      else if language = ''java'' then java_patterns
      else if language = ''cpp'' then cpp_patterns
      else if language \<in> set object_prototype_members then no_patterns
      else javascript_patterns)"

subsection \<open>Statements\<close>

datatype stype =
  TVariable | TFunction | TIf | TFor | TWhile | TReturn | TCall | TAssignment | TStatement

fun type_name :: "stype \<Rightarrow> string" where
  \<comment> \<open>the string the source stores in \<open>statement.type\<close>\<close>
  "type_name TVariable = ''variable''"
| "type_name TFunction = ''function''"
| "type_name TIf = ''if''"
| "type_name TFor = ''for''"
| "type_name TWhile = ''while''"
| "type_name TReturn = ''return''"
| "type_name TCall = ''call''"
| "type_name TAssignment = ''assignment''"
| "type_name TStatement = ''statement''"

datatype error = TypeError

record statement =
  s_type :: stype
  s_line :: nat
  s_indent :: nat
  s_code :: string
  s_name :: "string option"
  s_variables :: "string option list option"
  s_condition :: "string option"
  s_loopVar :: "string option"
  s_function :: "string option"
  s_arguments :: "string list option"
  s_variable :: "string option"
  s_description :: string

definition mk_statement :: "stype \<Rightarrow> nat \<Rightarrow> nat \<Rightarrow> string \<Rightarrow> string \<Rightarrow> statement" where
  \<comment> \<open>the four properties every statement has, and its description; the rest absent\<close>
  "mk_statement t lineNumber indentLevel line d = \<lparr>
     s_type = t, s_line = lineNumber, s_indent = indentLevel, s_code = line,
     s_name = None, s_variables = None, s_condition = None, s_loopVar = None,
     s_function = None, s_arguments = None, s_variable = None, s_description = d\<rparr>"

subsection \<open>Classifying one line\<close>

definition pat_test :: "regex option \<Rightarrow> string \<Rightarrow> bool" where
  \<comment> \<open>\<open>this.patterns.x && this.patterns.x.test(line)\<close>\<close>
  "pat_test p line = (case p of None \<Rightarrow> False | Some r \<Rightarrow> test r line)"

definition must_test :: "regex option \<Rightarrow> string \<Rightarrow> error + bool" where
  \<comment> \<open>\<open>this.patterns.x.test(line)\<close> with no guard: a missing pattern raises\<close>
  "must_test p line = (case p of None \<Rightarrow> Inl TypeError | Some r \<Rightarrow> Inr (test r line))"

definition must_exec :: "regex option \<Rightarrow> string \<Rightarrow> error + mstate" where
  \<comment> \<open>\<open>line.match(this.patterns.x)\<close> whose result is indexed at once: \<open>null\<close> raises\<close>
  "must_exec p line =
     (case p of
        None \<Rightarrow> Inl TypeError
      | Some r \<Rightarrow> (case exec r line of None \<Rightarrow> Inl TypeError | Some m \<Rightarrow> Inr m))"

definition parentheses_re :: regex where
  \<comment> \<open>\<open>/\((.*?)\)/\<close>\<close>
  "parentheses_re = cat [RLit CHR ''('', RGroup 1 lazy_any, RLit CHR '')'']"

definition python_style_re :: regex where
  \<comment> \<open>\<open>/^\s*(if|while|elif)\s+(.*?):/\<close>\<close>
  "python_style_re = cat [RBol, ws, RGroup 1 (alts [str ''if'', str ''while'', str ''elif'']), ws1,
     RGroup 2 lazy_any, RLit CHR '':'']"

definition extractCondition :: "string \<Rightarrow> string \<Rightarrow> string option" where
  "extractCondition language line =
     (if language = ''python'' then
        (case exec python_style_re line of Some m \<Rightarrow> cap m 2 | None \<Rightarrow> Some ''condition'')
      else
        (case exec parentheses_re line of Some m \<Rightarrow> cap m 1 | None \<Rightarrow> Some ''condition''))"

record loop_info =
  li_variable :: "string option"
  li_variables :: "string option list"
  li_description :: string

definition py_for_re :: regex where
  \<comment> \<open>\<open>/for\s+(\w+)\s+in\s+(.*?):/\<close>\<close>
  "py_for_re = cat [str ''for'', ws1, RGroup 1 ident, ws1, str ''in'', ws1, RGroup 2 lazy_any,
     RLit CHR '':'']"

definition c_for_re :: regex where
  \<comment> \<open>\<open>/for\s*\(\s*(.*?)\s*;\s*(.*?)\s*;\s*(.*?)\s*\)/\<close>\<close>
  "c_for_re = cat [str ''for'', ws, RLit CHR ''('', ws, RGroup 1 lazy_any, ws, RLit CHR '';'', ws,
     RGroup 2 lazy_any, ws, RLit CHR '';'', ws, RGroup 3 lazy_any, ws, RLit CHR '')'']"

definition default_loop_info :: loop_info where
  "default_loop_info =
     \<lparr>li_variable = Some ''i'', li_variables = [Some ''i''], li_description = ''loop iteration''\<rparr>"

definition extractLoopInfo :: "string \<Rightarrow> string \<Rightarrow> error + loop_info" where
  "extractLoopInfo language line =
     (if language = ''python'' then
        (case exec py_for_re line of
           Some m \<Rightarrow> Inr \<lparr>li_variable = cap m 1, li_variables = [cap m 1],
             li_description = js_str (cap m 1) @ '' in '' @ js_str (cap m 2)\<rparr>
         | None \<Rightarrow> Inr default_loop_info)
      else
        (case exec c_for_re line of
           Some m \<Rightarrow>
             (case cap m 1 of
                None \<Rightarrow> Inl TypeError
              | Some init \<Rightarrow>
                  (let v = (case exec (RGroup 1 ident) init of
                              Some iv \<Rightarrow> cap iv 1 | None \<Rightarrow> Some ''i'')
                   in Inr \<lparr>li_variable = v, li_variables = [v],
                     li_description = init @ ''; '' @ js_str (cap m 2) @ ''; '' @ js_str (cap m 3)\<rparr>))
         | None \<Rightarrow> Inr default_loop_info))"

record function_call =
  fc_name :: "string option"
  fc_args :: "string list"

definition call_re :: regex where
  \<comment> \<open>\<open>/(\w+)\s*\((.*?)\)/\<close>\<close>
  "call_re = cat [RGroup 1 ident, ws, RLit CHR ''('', RGroup 2 lazy_any, RLit CHR '')'']"

definition extractFunctionCall :: "patterns \<Rightarrow> string \<Rightarrow> error + function_call option" where
  "extractFunctionCall pats line =
     (case exec call_re line of
        None \<Rightarrow> Inr None
      | Some m \<Rightarrow>
          (case must_test (p_function pats) line of
             Inl e \<Rightarrow> Inl e
           | Inr True \<Rightarrow> Inr None
           | Inr False \<Rightarrow>
               (case must_test (p_if pats) line of
                  Inl e \<Rightarrow> Inl e
                | Inr True \<Rightarrow> Inr None
                | Inr False \<Rightarrow>
                    Inr (Some \<lparr>fc_name = cap m 1,
                      fc_args = (case cap m 2 of
                                   None \<Rightarrow> []
                                 | Some a \<Rightarrow> if a = [] then [] else map trim (split_on CHR '','' a))\<rparr>))))"

definition generic_statement :: "string \<Rightarrow> nat \<Rightarrow> nat \<Rightarrow> statement" where
  "generic_statement line lineNumber indentLevel =
     mk_statement TStatement lineNumber indentLevel line
       (''Execute: '' @ substring0 line 50 @ (if length line > 50 then ''...'' else []))"

definition assignment_or_generic :: "patterns \<Rightarrow> string \<Rightarrow> nat \<Rightarrow> nat \<Rightarrow> error + statement" where
  \<comment> \<open>the last two cases of \<open>analyzeLine\<close>\<close>
  "assignment_or_generic pats line lineNumber indentLevel =
     (if pat_test (p_assignment pats) line then
        (case must_test (p_variable pats) line of
           Inl e \<Rightarrow> Inl e
         | Inr True \<Rightarrow> Inr (generic_statement line lineNumber indentLevel)
         | Inr False \<Rightarrow>
             (case must_exec (p_assignment pats) line of
                Inl e \<Rightarrow> Inl e
              | Inr m \<Rightarrow>
                  Inr ((mk_statement TAssignment lineNumber indentLevel line
                         (''Assign to: '' @ js_str (cap m 1)))
                       \<lparr>s_variable := cap m 1, s_variables := Some [cap m 1]\<rparr>)))
      else Inr (generic_statement line lineNumber indentLevel))"

definition analyzeLine :: "string \<Rightarrow> patterns \<Rightarrow> string \<Rightarrow> nat \<Rightarrow> nat \<Rightarrow> error + statement" where
  "analyzeLine language pats line lineNumber indentLevel =
     (if pat_test (p_variable pats) line then
        (case must_exec (p_variable pats) line of
           Inl e \<Rightarrow> Inl e
         | Inr m \<Rightarrow>
             (let variableName = js_or (cap m 2) (cap m 1)
              in Inr ((mk_statement TVariable lineNumber indentLevel line
                        (''Declare/assign variable: '' @ js_str variableName))
                      \<lparr>s_name := variableName, s_variables := Some [variableName]\<rparr>)))
      else if pat_test (p_function pats) line then
        (case must_exec (p_function pats) line of
           Inl e \<Rightarrow> Inl e
         | Inr m \<Rightarrow>
             (let functionName = js_or (cap m 1) (cap m 3)
              in Inr ((mk_statement TFunction lineNumber indentLevel line
                        (''Define function: '' @ js_str functionName))
                      \<lparr>s_name := functionName\<rparr>)))
      else if pat_test (p_if pats) line then
        (let condition = extractCondition language line
         in Inr ((mk_statement TIf lineNumber indentLevel line
                   (''Conditional: '' @ js_str condition))
                 \<lparr>s_condition := condition\<rparr>))
      else if pat_test (p_for pats) line then
        (case extractLoopInfo language line of
           Inl e \<Rightarrow> Inl e
         | Inr loopInfo \<Rightarrow>
             Inr ((mk_statement TFor lineNumber indentLevel line
                    (''For loop: '' @ li_description loopInfo))
                  \<lparr>s_loopVar := li_variable loopInfo, s_variables := Some (li_variables loopInfo)\<rparr>))
      else if pat_test (p_while pats) line then
        (let condition = extractCondition language line
         in Inr ((mk_statement TWhile lineNumber indentLevel line
                   (''While loop: '' @ js_str condition))
                 \<lparr>s_condition := condition\<rparr>))
      else if pat_test (p_return pats) line then
        Inr (mk_statement TReturn lineNumber indentLevel line ''Return from function'')
      else
        (case extractFunctionCall pats line of
           Inl e \<Rightarrow> Inl e
         | Inr (Some functionCall) \<Rightarrow>
             Inr ((mk_statement TCall lineNumber indentLevel line
                    (''Call function: '' @ js_str (fc_name functionCall)))
                  \<lparr>s_function := fc_name functionCall, s_arguments := Some (fc_args functionCall)\<rparr>)
         | Inr None \<Rightarrow> assignment_or_generic pats line lineNumber indentLevel))"

subsection \<open>Parsing a text\<close>

definition isComment :: "patterns \<Rightarrow> string \<Rightarrow> bool" where
  "isComment pats line = pat_test (p_comment pats) line"

definition getIndentation :: "string \<Rightarrow> error + nat" where
  \<comment> \<open>\<open>line.match(/^(\s*)/)\<close>, then \<open>match ? match[1].length : 0\<close>\<close>
  "getIndentation line =
     (case exec (cat [RBol, RGroup 1 ws]) line of
        None \<Rightarrow> Inr 0
      | Some m \<Rightarrow> (case cap m 1 of None \<Rightarrow> Inl TypeError | Some w \<Rightarrow> Inr (length w)))"

record analysis =
  a_language :: string
  a_totalLines :: nat
  a_statements :: "statement list"
  a_variables :: "string option list"  \<comment> \<open>a \<open>Set\<close>: distinct, in insertion order\<close>
  a_functions :: "string option list"  \<comment> \<open>a \<open>Set\<close>\<close>
  a_controlStructures :: "statement list"
  a_complexity :: nat

definition set_add :: "'a \<Rightarrow> 'a list \<Rightarrow> 'a list" where
  "set_add x xs = (if x \<in> set xs then xs else xs @ [x])"

definition record_statement :: "statement \<Rightarrow> analysis \<Rightarrow> analysis" where
  \<comment> \<open>the body of \<open>if (statement) { ... }\<close> in the loop of \<open>parseCode\<close>\<close>
  "record_statement s a =
     (let a1 = a\<lparr>a_statements := a_statements a @ [s]\<rparr>;
          a2 = (case s_variables s of
                  None \<Rightarrow> a1
                | Some vs \<Rightarrow> a1\<lparr>a_variables := fold set_add vs (a_variables a1)\<rparr>);
          a3 = (if type_name (s_type s) = ''function''
                then a2\<lparr>a_functions := set_add (s_name s) (a_functions a2)\<rparr> else a2)
      in if type_name (s_type s) \<in> set [''if'', ''for'', ''while'', ''switch'']
         then a3\<lparr>a_controlStructures := a_controlStructures a3 @ [s],
                 a_complexity := a_complexity a3 + 1\<rparr>
         else a3)"

fun parse_lines :: "string \<Rightarrow> patterns \<Rightarrow> string list \<Rightarrow> nat \<Rightarrow> analysis \<Rightarrow> error + analysis" where
  \<comment> \<open>the loop over the lines; \<open>lineNumber\<close> is the counter before its increment\<close>
  "parse_lines language pats [] lineNumber a = Inr a"
| "parse_lines language pats (line # ls) lineNumber a =
     (let trimmedLine = trim line in
      if trimmedLine = [] \<or> isComment pats trimmedLine
      then parse_lines language pats ls (lineNumber + 1) a
      else
        (case getIndentation line of
           Inl e \<Rightarrow> Inl e
         | Inr indent \<Rightarrow>
             (case analyzeLine language pats trimmedLine (lineNumber + 1) (indent div 2) of
                Inl e \<Rightarrow> Inl e
              | Inr s \<Rightarrow> parse_lines language pats ls (lineNumber + 1) (record_statement s a))))"

definition parseCode :: "string \<Rightarrow> string \<Rightarrow> error + analysis" where
  \<comment> \<open>\<open>new CodeParser(language).parseCode(code)\<close>\<close>
  "parseCode language code =
     (let ls = split_on CHR 0x0A code
      in parse_lines language (getLanguagePatterns language) ls 0
           \<lparr>a_language = language, a_totalLines = length ls, a_statements = [],
            a_variables = [], a_functions = [], a_controlStructures = [], a_complexity = 0\<rparr>)"

section \<open>The flowchart generator\<close>

text \<open>
  The generator builds a list of nodes and a list of connections and then prints them as
  text. The graph is modelled; a node's label and bookkeeping properties that no connection
  rule reads (\<open>hasConditionalBranches\<close>, \<open>hasLoopBack\<close>, \<open>previous\<close>, the two stacks) and the
  printed text, whose link indices are random numbers, are left out.
\<close>

record node =
  n_id :: string
  n_type :: string
  n_shape :: string
  n_class :: string
  n_statement :: "statement option"
  n_index :: "nat option"
  n_connectsToEnd :: bool

record connection =
  c_from :: string
  c_to :: string
  c_label :: string
  c_style :: "string option"

definition node_id :: "nat \<Rightarrow> string" where
  \<comment> \<open>\<open>`A${this.nodeCounter++}`\<close>, for the value of the counter before the increment\<close>
  "node_id k = CHR ''A'' # show_nat k"

definition createNodeFromStatement :: "nat \<Rightarrow> statement \<Rightarrow> nat \<Rightarrow> node" where
  "createNodeFromStatement nodeCounter statement index =
     (let t = type_name (s_type statement);
          shape = (if t = ''if'' \<or> t = ''for'' \<or> t = ''while'' then ''diamond'' else ''rect'');
          nodeClass =
            (if t = ''if'' then ''condition''
             else if t = ''for'' \<or> t = ''while'' then ''condition''
             else if t = ''function'' then ''function''
             else if t = ''variable'' \<or> t = ''assignment'' then ''assignment''
             else if t = ''call'' then ''process''
             else if t = ''return'' then ''return''
             else ''process'')
      in \<lparr>n_id = node_id nodeCounter, n_type = t, n_shape = shape, n_class = nodeClass,
          n_statement = Some statement, n_index = Some index, n_connectsToEnd = False\<rparr>)"

fun statement_nodes :: "nat \<Rightarrow> nat \<Rightarrow> statement list \<Rightarrow> node list" where
  \<comment> \<open>the loop of \<open>createNodes\<close>, from counter value \<open>c\<close> and index \<open>i\<close>\<close>
  "statement_nodes c i [] = []"
| "statement_nodes c i (s # ss) =
     (let node = createNodeFromStatement c s i;
          node' = (if type_name (s_type s) = ''return'' then node\<lparr>n_connectsToEnd := True\<rparr> else node)
      in node' # statement_nodes (c + 1) (i + 1) ss)"

definition terminal_node :: "nat \<Rightarrow> string \<Rightarrow> node" where
  "terminal_node c t =
     \<lparr>n_id = node_id c, n_type = t, n_shape = ''ellipse'', n_class = ''startEnd'',
      n_statement = None, n_index = None, n_connectsToEnd = False\<rparr>"

definition createNodes :: "nat \<Rightarrow> statement list \<Rightarrow> node list \<times> nat" where
  \<comment> \<open>takes the node counter and returns it with the nodes\<close>
  "createNodes nodeCounter statements =
     (terminal_node nodeCounter ''start''
        # statement_nodes (nodeCounter + 1) 0 statements
        @ [terminal_node (nodeCounter + 1 + length statements) ''end''],
      nodeCounter + 2 + length statements)"

definition last_id :: "node list \<Rightarrow> error + string" where
  \<comment> \<open>\<open>nodes[nodes.length - 1].id\<close>\<close>
  "last_id nodes = (if nodes = [] then Inl TypeError else Inr (n_id (last nodes)))"

definition indent_at_most :: "nat \<Rightarrow> node \<Rightarrow> bool" where
  \<comment> \<open>\<open>node.statement && node.statement.indent <= currentIndent\<close>\<close>
  "indent_at_most currentIndent n =
     (case n_statement n of None \<Rightarrow> False | Some s \<Rightarrow> s_indent s \<le> currentIndent)"

definition indent_above :: "nat \<Rightarrow> node \<Rightarrow> bool" where
  \<comment> \<open>\<open>node.statement && node.statement.indent > currentIndent\<close>\<close>
  "indent_above currentIndent n =
     (case n_statement n of None \<Rightarrow> False | Some s \<Rightarrow> s_indent s > currentIndent)"

definition findElseTarget :: "node \<Rightarrow> node list \<Rightarrow> nat \<Rightarrow> error + string" where
  "findElseTarget conditionNode nodes currentIndex =
     (case n_statement conditionNode of
        None \<Rightarrow> Inl TypeError
      | Some s \<Rightarrow>
          (case find (indent_at_most (s_indent s)) (drop (currentIndex + 2) nodes) of
             Some n \<Rightarrow> Inr (n_id n)
           | None \<Rightarrow> last_id nodes))"

definition findLoopExit :: "node \<Rightarrow> node list \<Rightarrow> nat \<Rightarrow> error + string" where
  "findLoopExit loopNode nodes currentIndex =
     (case n_statement loopNode of
        None \<Rightarrow> Inl TypeError
      | Some s \<Rightarrow>
          (case find (indent_at_most (s_indent s)) (drop (currentIndex + 2) nodes) of
             Some n \<Rightarrow> Inr (n_id n)
           | None \<Rightarrow> last_id nodes))"

definition findLoopBack :: "node \<Rightarrow> node list \<Rightarrow> nat \<Rightarrow> error + string option" where
  \<comment> \<open>the last node of the run of deeper nodes that starts right after the loop node\<close>
  "findLoopBack loopNode nodes currentIndex =
     (case n_statement loopNode of
        None \<Rightarrow> Inl TypeError
      | Some s \<Rightarrow>
          (let body = takeWhile (indent_above (s_indent s)) (drop (currentIndex + 1) nodes)
           in Inr (if body = [] then None else Some (n_id (last body)))))"

definition plain :: "string \<Rightarrow> string \<Rightarrow> connection" where
  "plain f t = \<lparr>c_from = f, c_to = t, c_label = [], c_style = None\<rparr>"

definition styled :: "string \<Rightarrow> string \<Rightarrow> string \<Rightarrow> string \<Rightarrow> connection" where
  "styled f t l st = \<lparr>c_from = f, c_to = t, c_label = l, c_style = Some st\<rparr>"

definition connections_at :: "node list \<Rightarrow> nat \<Rightarrow> error + connection list" where
  \<comment> \<open>one turn of the loop of \<open>createConnections\<close>, for \<open>i < nodes.length - 1\<close>\<close>
  "connections_at nodes i =
     (let currentNode = nodes ! i; nextNode = nodes ! (i + 1) in
      if n_type currentNode = ''start'' then
        Inr [plain (n_id currentNode) (n_id nextNode)]
      else if n_type currentNode = ''if'' then
        (case findElseTarget currentNode nodes i of
           Inl e \<Rightarrow> Inl e
         | Inr elseTarget \<Rightarrow>
             Inr [styled (n_id currentNode) (n_id nextNode) ''Yes'' ''stroke:#27ae60,stroke-width:2px'',
                  styled (n_id currentNode) elseTarget ''No'' ''stroke:#e74c3c,stroke-width:2px''])
      else if n_type currentNode = ''for'' \<or> n_type currentNode = ''while'' then
        (case findLoopExit currentNode nodes i of
           Inl e \<Rightarrow> Inl e
         | Inr exitTarget \<Rightarrow>
             (case findLoopBack currentNode nodes i of
                Inl e \<Rightarrow> Inl e
              | Inr loopBack \<Rightarrow>
                  Inr ([styled (n_id currentNode) (n_id nextNode) ''Continue''
                          ''stroke:#3498db,stroke-width:2px'',
                        styled (n_id currentNode) exitTarget ''Exit''
                          ''stroke:#e74c3c,stroke-width:2px'']
                       @ (case loopBack of
                            None \<Rightarrow> []
                          | Some b \<Rightarrow>
                              if b = [] then []
                              else [styled b (n_id currentNode) ''Loop''
                                      ''stroke:#f39c12,stroke-width:2px,stroke-dasharray: 5 5'']))))
      else if n_connectsToEnd currentNode then
        (case last_id nodes of
           Inl e \<Rightarrow> Inl e
         | Inr endId \<Rightarrow> Inr [plain (n_id currentNode) endId])
      else if n_type currentNode \<noteq> ''end'' then
        Inr [plain (n_id currentNode) (n_id nextNode)]
      else Inr [])"

fun connections_loop :: "node list \<Rightarrow> nat list \<Rightarrow> error + connection list" where
  "connections_loop nodes [] = Inr []"
| "connections_loop nodes (i # is) =
     (case connections_at nodes i of
        Inl e \<Rightarrow> Inl e
      | Inr cs \<Rightarrow>
          (case connections_loop nodes is of
             Inl e \<Rightarrow> Inl e
           | Inr ds \<Rightarrow> Inr (cs @ ds)))"

definition createConnections :: "node list \<Rightarrow> error + connection list" where
  \<comment> \<open>\<open>for (let i = 0; i < nodes.length - 1; i++)\<close>\<close>
  "createConnections nodes = connections_loop nodes [0 ..< length nodes - 1]"

record graph =
  g_nodes :: "node list"
  g_connections :: "connection list"

definition build_graph :: "statement list \<Rightarrow> error + graph" where
  \<comment> \<open>the two lists that \<open>generateFromAnalysis\<close> builds, after it sets the counter to 1\<close>
  "build_graph statements =
     (let nodes = fst (createNodes 1 statements)
      in case createConnections nodes of
           Inl e \<Rightarrow> Inl e
         | Inr cs \<Rightarrow> Inr \<lparr>g_nodes = nodes, g_connections = cs\<rparr>)"

section \<open>The analyser (\<open>js/analyser.js\<close>)\<close>

subsection \<open>Metrics\<close>

definition truthy :: "string option \<Rightarrow> bool" where
  \<comment> \<open>a string property used as a condition: \<open>undefined\<close> and the empty string are falsy\<close>
  "truthy v = (case v of None \<Rightarrow> False | Some s \<Rightarrow> s \<noteq> [])"

definition complexity_step :: "statement \<Rightarrow> nat \<Rightarrow> nat" where
  \<comment> \<open>the body of the loop of \<open>calculateCyclomaticComplexity\<close>\<close>
  "complexity_step statement complexity =
     (let c1 = (if type_name (s_type statement) \<in> set [''if'', ''for'', ''while'', ''switch'', ''case'']
                then complexity + 1 else complexity)
      in if truthy (s_condition statement) \<and>
            (includes_str (the (s_condition statement)) ''&&'' \<or>
             includes_str (the (s_condition statement)) ''||'')
         then c1 + count_and_or (the (s_condition statement))
         else c1)"

definition calculateCyclomaticComplexity :: "'a analysis_scheme \<Rightarrow> nat" where
  "calculateCyclomaticComplexity a = fold complexity_step (a_statements a) 1"

definition nesting_step :: "statement \<Rightarrow> nat \<Rightarrow> nat" where
  \<comment> \<open>the body of the loop of \<open>calculateMaxNesting\<close>, on \<open>maxDepth\<close>\<close>
  "nesting_step statement maxDepth =
     (if type_name (s_type statement) \<in> set [''if'', ''for'', ''while'', ''function'']
      then max maxDepth (s_indent statement) else maxDepth)"

definition calculateMaxNesting :: "'a analysis_scheme \<Rightarrow> nat" where
  "calculateMaxNesting a = fold nesting_step (a_statements a) 0 div 2"

definition countLinesOfCode :: "'a analysis_scheme \<Rightarrow> nat" where
  "countLinesOfCode a = length (filter (\<lambda>s. type_name (s_type s) \<noteq> ''comment'') (a_statements a))"

definition calculateCodeCommentRatio :: "'a analysis_scheme \<Rightarrow> rat" where
  \<comment> \<open>a quotient of two counts, kept exact\<close>
  "calculateCodeCommentRatio a =
     (let codeLines = countLinesOfCode a;
          commentLines = length (filter (\<lambda>s. type_name (s_type s) = ''comment'') (a_statements a))
      in if commentLines > 0 then of_nat codeLines / of_nat commentLines else of_nat codeLines)"

record metrics =
  m_totalStatements :: nat
  m_totalLines :: nat
  m_cyclomaticComplexity :: nat
  m_variableCount :: nat
  m_functionCount :: nat
  m_maxNestingDepth :: nat
  m_linesOfCode :: nat
  m_codeToCommentRatio :: rat

record scored_metrics = metrics +
  m_qualityScore :: int

definition calculateQualityScore :: "'a metrics_scheme \<Rightarrow> int" where
  "calculateQualityScore m =
     (let score0 = (100 :: int);
          score1 = (if m_cyclomaticComplexity m > 10
                    then score0 - (int (m_cyclomaticComplexity m) - 10) * 5 else score0);
          score2 = (if m_maxNestingDepth m > 4
                    then score1 - (int (m_maxNestingDepth m) - 4) * 10 else score1);
          score3 = (if m_codeToCommentRatio m > 3 \<and> m_codeToCommentRatio m < 10
                    then score2 + 10 else score2)
      in max 0 (min 100 score3))"

definition calculateMetrics :: "'a analysis_scheme \<Rightarrow> scored_metrics" where
  "calculateMetrics a =
     (let m = \<lparr>m_totalStatements = length (a_statements a),
               m_totalLines = a_totalLines a,
               m_cyclomaticComplexity = calculateCyclomaticComplexity a,
               m_variableCount = length (a_variables a),
               m_functionCount = length (a_functions a),
               m_maxNestingDepth = calculateMaxNesting a,
               m_linesOfCode = countLinesOfCode a,
               m_codeToCommentRatio = calculateCodeCommentRatio a\<rparr>
      in metrics.extend m \<lparr>m_qualityScore = calculateQualityScore m\<rparr>)"

subsection \<open>Performance\<close>

definition previousIndent :: "statement \<Rightarrow> nat option" where
  \<comment> \<open>\<open>statement.previousIndent\<close>: nothing in the program ever assigns this property, so
      reading it gives \<open>undefined\<close>\<close>
  "previousIndent s = None"

definition depth_step :: "statement \<Rightarrow> nat \<times> nat \<Rightarrow> nat \<times> nat" where
  \<comment> \<open>the body of the loop of \<open>estimateTimeComplexity\<close>, on \<open>(nestedLoopDepth, currentDepth)\<close>;
      subtraction on \<open>nat\<close> stops at 0, as \<open>Math.max(0, currentDepth - 1)\<close> does\<close>
  "depth_step statement = (\<lambda>(nestedLoopDepth, currentDepth).
     if type_name (s_type statement) \<in> set [''for'', ''while'']
     then (max nestedLoopDepth (currentDepth + 1), currentDepth + 1)
     else if s_indent statement < (case previousIndent statement of None \<Rightarrow> 0 | Some p \<Rightarrow> p)
     then (nestedLoopDepth, currentDepth - 1)
     else (nestedLoopDepth, currentDepth))"

definition complexity_text :: "nat \<Rightarrow> string" where
  \<comment> \<open>the \<open>switch\<close> of \<open>estimateTimeComplexity\<close>; characters 0xB2 and 0xB3 are the
      superscript two and three\<close>
  "complexity_text nestedLoopDepth =
     (if nestedLoopDepth = 0 then ''O(1)''
      else if nestedLoopDepth = 1 then ''O(n)''
      else if nestedLoopDepth = 2 then ''O(n'' @ [CHR 0xB2] @ '')''
      else if nestedLoopDepth = 3 then ''O(n'' @ [CHR 0xB3] @ '')''
      else ''O(n^'' @ show_nat nestedLoopDepth @ '')'')"

definition estimateTimeComplexity :: "'a analysis_scheme \<Rightarrow> string" where
  "estimateTimeComplexity a = complexity_text (fst (fold depth_step (a_statements a) (0, 0)))"

subsection \<open>Security\<close>

record issue =
  i_type :: string
  i_severity :: string
  i_message :: string
  i_line :: nat

record security =
  sec_issues :: "issue list"
  sec_riskLevel :: string

definition statement_issues :: "statement \<Rightarrow> issue list" where
  \<comment> \<open>the body of the loop of \<open>analyzeSecurityIssues\<close>: what one statement appends\<close>
  "statement_issues statement =
     (if includes_str (toLowerCase (s_code statement)) ''eval(''
      then [\<lparr>i_type = ''eval_usage'', i_severity = ''high'',
             i_message = ''Use of eval() detected - potential security risk'',
             i_line = s_line statement\<rparr>]
      else [])
     @ (if includes_str (toLowerCase (s_code statement)) ''innerhtml''
        then [\<lparr>i_type = ''innerHTML_usage'', i_severity = ''medium'',
               i_message = ''Use of innerHTML - potential XSS vulnerability'',
               i_line = s_line statement\<rparr>]
        else [])"

definition analyzeSecurityIssues :: "'a analysis_scheme \<Rightarrow> security" where
  "analyzeSecurityIssues a =
     (let issues = fold (\<lambda>s acc. acc @ statement_issues s) (a_statements a) []
      in \<lparr>sec_issues = issues,
          sec_riskLevel = (if length issues = 0 then ''low''
                           else if length issues \<le> 2 then ''medium'' else ''high'')\<rparr>)"

subsection \<open>Execution steps\<close>

record memory_change =
  mc_action :: string
  mc_variable :: "string option"
  mc_type :: string

record execution_step =
  e_stepNumber :: nat
  e_type :: string
  e_description :: string
  e_explanation :: string
  e_code :: string
  e_line :: nat
  e_category :: string
  e_memoryChanges :: "memory_change list"
  e_indent :: nat
  e_complexity :: nat

definition quoted :: "string option \<Rightarrow> string" where
  \<comment> \<open>\<open>'${v}'\<close> inside a template literal\<close>
  "quoted v = [CHR 0x27] @ js_str v @ [CHR 0x27]"

definition getStatementComplexity :: "statement \<Rightarrow> nat" where
  "getStatementComplexity statement =
     (let t = type_name (s_type statement) in
      case map_of [(''variable'', 1), (''assignment'', 1), (''if'', 2), (''for'', 3),
                   (''while'', 3), (''function'', 2), (''call'', 1), (''return'', 1 :: nat)] t of
        None \<Rightarrow> 1
      | Some w \<Rightarrow> if w = 0 then 1 else w)"

definition step_texts :: "statement \<Rightarrow> string \<times> string \<times> memory_change list \<times> string" where
  \<comment> \<open>the \<open>switch\<close> of \<open>createExecutionStep\<close>:
      \<open>(description, explanation, memoryChanges, category)\<close>\<close>
  "step_texts statement =
     (let t = type_name (s_type statement) in
      if t = ''variable'' then
        (''Declare variable '' @ quoted (s_name statement),
         ''Create a new variable named '' @ quoted (s_name statement) @ '' in memory'',
         [\<lparr>mc_action = ''create'', mc_variable = s_name statement, mc_type = ''variable''\<rparr>],
         ''memory'')
      else if t = ''assignment'' then
        (''Assign value to '' @ quoted (s_variable statement),
         ''Update the value stored in variable '' @ quoted (s_variable statement),
         [\<lparr>mc_action = ''update'', mc_variable = s_variable statement, mc_type = ''assignment''\<rparr>],
         ''memory'')
      else if t = ''function'' then
        (''Define function '' @ quoted (s_name statement),
         ''Create a new function named '' @ quoted (s_name statement) @ '' that can be called later'',
         [\<lparr>mc_action = ''create'', mc_variable = s_name statement, mc_type = ''function''\<rparr>],
         ''definition'')
      else if t = ''if'' then
        (''Check condition: '' @ js_str (s_condition statement),
         ''Evaluate the condition '' @ quoted (s_condition statement) @ '' and branch accordingly'',
         [], ''control'')
      else if t = ''for'' then
        (''Start for loop with '' @ quoted (s_loopVar statement),
         ''Initialize loop variable '' @ quoted (s_loopVar statement) @ '' and begin iteration'',
         (if truthy (s_loopVar statement)
          then [\<lparr>mc_action = ''create'', mc_variable = s_loopVar statement,
                 mc_type = ''loop_variable''\<rparr>]
          else []),
         ''control'')
      else if t = ''while'' then
        (''Start while loop: '' @ js_str (s_condition statement),
         ''Check condition '' @ quoted (s_condition statement) @ '' and repeat while true'',
         [], ''control'')
      else if t = ''call'' then
        (''Call function '' @ quoted (s_function statement),
         ''Execute the function '' @ quoted (s_function statement) @ '' with given parameters'',
         [], ''execution'')
      else if t = ''return'' then
        (''Return from function'',
         ''Exit the current function and return control to caller'',
         [], ''control'')
      else
        (''Execute: '' @ s_code statement, ''Run the statement: '' @ s_code statement,
         [], ''execution''))"

definition createExecutionStep :: "statement \<Rightarrow> nat \<Rightarrow> execution_step" where
  "createExecutionStep statement stepNumber =
     (case step_texts statement of (description, explanation, memoryChanges, category) \<Rightarrow>
        \<lparr>e_stepNumber = stepNumber, e_type = type_name (s_type statement),
         e_description = description, e_explanation = explanation,
         e_code = s_code statement, e_line = s_line statement, e_category = category,
         e_memoryChanges = memoryChanges, e_indent = s_indent statement,
         e_complexity = getStatementComplexity statement\<rparr>)"

fun steps_from :: "nat \<Rightarrow> statement list \<Rightarrow> execution_step list" where
  \<comment> \<open>the loop of \<open>generateExecutionSteps\<close>, from the step counter's value\<close>
  "steps_from stepCounter [] = []"
| "steps_from stepCounter (s # ss) = createExecutionStep s stepCounter # steps_from (stepCounter + 1) ss"

definition generateExecutionSteps :: "'a analysis_scheme \<Rightarrow> execution_step list" where
  "generateExecutionSteps a = steps_from 1 (a_statements a)"

subsection \<open>The analysis and its cache\<close>

text \<open>
  \<open>analyzeCode\<close> adds its results to the object the parser returned and keeps that object in
  a map from cache keys to objects. Objects are modelled by references into a store, so that
  "the same object" is "the same reference". Of the properties added, those that the
  statements below read are modelled: the metrics, the estimated time complexity, the
  security report, the execution steps and the graph of the flowchart.
\<close>

record full_analysis = analysis +
  fa_security :: security
  fa_timeComplexity :: string
  fa_executionSteps :: "execution_step list"
  fa_metrics :: scored_metrics
  fa_graph :: graph

definition hash_step :: "32 word \<Rightarrow> char \<Rightarrow> 32 word" where
  \<comment> \<open>\<open>hash = ((hash << 5) - hash) + char; hash = hash & hash\<close>, the value kept as 32 bits\<close>
  "hash_step hash c = (let h = (push_bit 5 hash - hash) + of_nat (of_char c) in h AND h)"

definition hashCode :: "string \<Rightarrow> int" where
  "hashCode s = sint (fold (\<lambda>c h. hash_step h c) s 0)"

definition analyse :: "string \<Rightarrow> string \<Rightarrow> error + full_analysis" where
  \<comment> \<open>what \<open>analyzeCode\<close> computes when the cache has no entry\<close>
  "analyse code language =
     (case parseCode language code of
        Inl e \<Rightarrow> Inl e
      | Inr a \<Rightarrow>
          (case build_graph (a_statements a) of
             Inl e \<Rightarrow> Inl e
           | Inr g \<Rightarrow>
               Inr (analysis.extend a
                 \<lparr>fa_security = analyzeSecurityIssues a,
                  fa_timeComplexity = estimateTimeComplexity a,
                  fa_executionSteps = generateExecutionSteps a,
                  fa_metrics = calculateMetrics a,
                  fa_graph = g\<rparr>)))"

record store =
  st_objects :: "nat \<rightharpoonup> full_analysis"  \<comment> \<open>the analysis objects created so far\<close>
  st_next :: nat  \<comment> \<open>the next fresh reference\<close>
  st_cache :: "string \<rightharpoonup> nat"  \<comment> \<open>\<open>this.analysisCache\<close>\<close>

definition new_analyzer :: store where
  \<comment> \<open>\<open>new CodeAnalyzer()\<close>\<close>
  "new_analyzer = \<lparr>st_objects = Map.empty, st_next = 0, st_cache = Map.empty\<rparr>"

definition cache_key :: "string \<Rightarrow> string \<Rightarrow> string" where
  \<comment> \<open>\<open>`${language}:${this.hashCode(code)}`\<close>\<close>
  "cache_key code language = language @ '':'' @ show_int (hashCode code)"

definition analyzeCode :: "string \<Rightarrow> string \<Rightarrow> store \<Rightarrow> error + (nat \<times> store)" where
  \<comment> \<open>returns the reference of the result and the store after the call\<close>
  "analyzeCode code language st =
     (let cacheKey = cache_key code language in
      case st_cache st cacheKey of
        Some r \<Rightarrow> Inr (r, st)
      | None \<Rightarrow>
          (case analyse code language of
             Inl e \<Rightarrow> Inl e
           | Inr a \<Rightarrow>
               (let r = st_next st
                in Inr (r, st\<lparr>st_objects := (st_objects st)(r \<mapsto> a),
                              st_next := r + 1,
                              st_cache := (st_cache st)(cacheKey \<mapsto> r)\<rparr>))))"

definition clearCache :: "store \<Rightarrow> store" where
  "clearCache st = st\<lparr>st_cache := Map.empty\<rparr>"

section \<open>Notions used in the statements\<close>

subsection \<open>Capture groups that every match sets\<close>

definition cap_keys :: "mstate \<Rightarrow> nat set" where
  "cap_keys st = fst ` set (caps st)"

fun sure :: "regex \<Rightarrow> nat set" where
  "sure (RGroup i a) = insert i (sure a)"
| "sure (RSeq a b) = sure a \<union> sure b"
| "sure (RAlt a b) = sure a \<inter> sure b"
| "sure _ = {}"

subsection \<open>Lines that give a statement\<close>

definition complete :: "patterns \<Rightarrow> bool" where
  "complete pats = (p_function pats \<noteq> None \<and> p_if pats \<noteq> None \<and>
     (p_assignment pats \<noteq> None \<longrightarrow> p_variable pats \<noteq> None))"

definition kept :: "patterns \<Rightarrow> string \<Rightarrow> bool" where
  "kept pats line = (trim line \<noteq> [] \<and> \<not> isComment pats (trim line))"

definition retained :: "patterns \<Rightarrow> nat \<Rightarrow> string list \<Rightarrow> (nat \<times> string) list" where
  "retained pats n ls = map (\<lambda>(i, l). (i, trim l)) (filter (\<lambda>(i, l). kept pats l) (enumerate n ls))"

definition from_line :: "string \<Rightarrow> patterns \<Rightarrow> statement \<Rightarrow> bool" where
  "from_line language pats s =
     (analyzeLine language pats (s_code s) (s_line s) (s_indent s) = Inr s)"

subsection \<open>Containing a text, whatever the case of the letters\<close>

definition contains_ci :: "string \<Rightarrow> string \<Rightarrow> bool" where
  "contains_ci text p = (\<exists>u v w. text = u @ v @ w \<and> toLowerCase v = p)"

subsection \<open>Lines that no rule matches\<close>

definition unmatched :: "patterns \<Rightarrow> string \<Rightarrow> bool" where
  "unmatched pats line =
     (\<not> pat_test (p_variable pats) line \<and> \<not> pat_test (p_function pats) line \<and>
      \<not> pat_test (p_if pats) line \<and> \<not> pat_test (p_for pats) line \<and>
      \<not> pat_test (p_while pats) line \<and> \<not> pat_test (p_return pats) line \<and>
      \<not> test call_re line \<and> \<not> pat_test (p_assignment pats) line)"

definition sample_text :: string where
  "sample_text = ''// note'' @ [CHR 0x0A] @ ''  '' @ [CHR 0x0A] @ ''x = 1'' @ [CHR 0x0A] @ ''}''"

subsection \<open>A Python text that assigns twice\<close>

definition reassignment :: string where
  "reassignment = ''total = 1'' @ [CHR 0x0A] @ ''total = total + 2''"

subsection \<open>The nodes and connections of a graph\<close>

definition stmt_node :: "nat \<Rightarrow> nat \<Rightarrow> statement \<Rightarrow> node" where
  "stmt_node c i s =
     (let node = createNodeFromStatement c s i
      in if type_name (s_type s) = ''return'' then node\<lparr>n_connectsToEnd := True\<rparr> else node)"

definition loop_type :: "node \<Rightarrow> bool" where
  "loop_type n = (n_type n = ''for'' \<or> n_type n = ''while'')"

definition nodes_ok :: "node list \<Rightarrow> bool" where
  "nodes_ok N = (\<forall>n \<in> set N. n_type n = ''if'' \<or> loop_type n \<longrightarrow> n_statement n \<noteq> None)"

definition later_ids :: "node list \<Rightarrow> nat \<Rightarrow> string set" where
  "later_ids N i = n_id ` set (drop (i + 1) N)"

definition conn_ok :: "node list \<Rightarrow> nat \<Rightarrow> connection \<Rightarrow> bool" where
  "conn_ok N i c =
     ((c_from c = n_id (N ! i) \<and> c_to c \<in> later_ids N i \<and> c_label c \<noteq> ''Loop'') \<or>
      (c_label c = ''Loop'' \<and> c_to c = n_id (N ! i) \<and> loop_type (N ! i) \<and> c_from c \<in> later_ids N i))"

subsection \<open>The connections drawn at a node\<close>

definition edges_at :: "node list \<Rightarrow> nat \<Rightarrow> connection list" where
  "edges_at N i = projr (connections_at N i)"

subsection \<open>Two texts with a return statement\<close>

definition branch_text :: string where
  "branch_text = ''if (x > 0) {'' @ [CHR 0x0A] @ ''  return 1'' @ [CHR 0x0A] @ ''}''"

definition return_text :: string where
  "return_text = ''return 1'' @ [CHR 0x0A] @ ''done()''"

subsection \<open>The complexity formula, and three texts\<close>

definition condition_text :: "statement \<Rightarrow> string" where
  "condition_text s = (case s_condition s of None \<Rightarrow> [] | Some c \<Rightarrow> c)"

definition branching :: "statement \<Rightarrow> bool" where
  "branching s = (s_type s = TIf \<or> s_type s = TFor \<or> s_type s = TWhile)"

definition is_loop :: "statement \<Rightarrow> bool" where
  "is_loop s = (s_type s = TFor \<or> s_type s = TWhile)"

definition claimed_complexity :: "statement list \<Rightarrow> nat" where
  \<comment> \<open>the specification's formula: only the conditions of conditionals count\<close>
  "claimed_complexity ss =
     1 + length (filter branching ss)
       + sum_list (map (count_and_or \<circ> condition_text) (filter (\<lambda>s. s_type s = TIf) ss))"

definition while_text :: string where
  "while_text = ''while (a && b) {''"

definition two_loops_text :: string where
  "two_loops_text =
     ''while (i < n) {'' @ [CHR 0x0A] @ ''  i++'' @ [CHR 0x0A] @ ''}'' @ [CHR 0x0A] @
     ''while (j < n) {'' @ [CHR 0x0A] @ ''  j++'' @ [CHR 0x0A] @ ''}''"

definition commented_text :: string where
  "commented_text =
     ''// one'' @ [CHR 0x0A] @ ''// two'' @ [CHR 0x0A] @ ''// three'' @ [CHR 0x0A] @
     ''// four'' @ [CHR 0x0A] @ ''a()'' @ [CHR 0x0A] @ ''b()'' @ [CHR 0x0A] @ ''c()'' @ [CHR 0x0A] @
     ''                    if (x) {''"

subsection \<open>Stores whose references are in range\<close>

definition store_ok :: "store \<Rightarrow> bool" where
  \<comment> \<open>every reference in the cache or in use is below the next fresh one\<close>
  "store_ok st = ((\<forall>k r. st_cache st k = Some r \<longrightarrow> r < st_next st) \<and>
     (\<forall>r. st_objects st r \<noteq> None \<longrightarrow> r < st_next st))"

section \<open>Properties\<close>

subsection \<open>The matcher\<close>

lemma cap_keys_advance [simp]: "cap_keys (advance st) = cap_keys st"
  by (simp add: cap_keys_def advance_def)

lemma star_greedy_cont:
  assumes m: "\<And>st k x. m st k = Some x \<Longrightarrow> \<exists>st'. k st' = Some x \<and> cap_keys st \<subseteq> cap_keys st'"
  shows "star_greedy m n st k = Some x \<Longrightarrow> \<exists>st'. k st' = Some x \<and> cap_keys st \<subseteq> cap_keys st'"
proof (induction n arbitrary: st x)
  case 0
  then show ?case by auto
next
  case (Suc n)
  let ?k' = "\<lambda>st'. if length (rest st') < length (rest st) then star_greedy m n st' k else None"
  show ?case
  proof (cases "m st ?k'")
    case None
    with Suc.prems show ?thesis by auto
  next
    case (Some r)
    with Suc.prems have r: "r = x" by simp
    from m [OF Some] obtain st1 where k1: "?k' st1 = Some r" and sub: "cap_keys st \<subseteq> cap_keys st1"
      by blast
    from k1 have "star_greedy m n st1 k = Some r" by (simp split: if_splits)
    from Suc.IH [OF this] obtain st2 where "k st2 = Some r" "cap_keys st1 \<subseteq> cap_keys st2" by blast
    with sub r show ?thesis by blast
  qed
qed

lemma star_lazy_cont:
  assumes m: "\<And>st k x. m st k = Some x \<Longrightarrow> \<exists>st'. k st' = Some x \<and> cap_keys st \<subseteq> cap_keys st'"
  shows "star_lazy m n st k = Some x \<Longrightarrow> \<exists>st'. k st' = Some x \<and> cap_keys st \<subseteq> cap_keys st'"
proof (induction n arbitrary: st x)
  case 0
  then show ?case by auto
next
  case (Suc n)
  let ?k' = "\<lambda>st'. if length (rest st') < length (rest st) then star_lazy m n st' k else None"
  show ?case
  proof (cases "k st")
    case (Some r)
    with Suc.prems show ?thesis by auto
  next
    case None
    with Suc.prems have "m st ?k' = Some x" by simp
    from m [OF this] obtain st1 where k1: "?k' st1 = Some x" and sub: "cap_keys st \<subseteq> cap_keys st1"
      by blast
    from k1 have "star_lazy m n st1 k = Some x" by (simp split: if_splits)
    from Suc.IH [OF this] obtain st2 where "k st2 = Some x" "cap_keys st1 \<subseteq> cap_keys st2" by blast
    with sub show ?thesis by blast
  qed
qed

lemma rmatch_cont:
  "rmatch r st k = Some x \<Longrightarrow> \<exists>st'. k st' = Some x \<and> cap_keys st \<union> sure r \<subseteq> cap_keys st'"
proof (induction r arbitrary: st k x)
  case REps
  then show ?case by auto
next
  case (RLit c)
  then show ?case by (auto split: list.splits if_splits)
next
  case (RCls cl)
  then show ?case by (auto split: list.splits if_splits)
next
  case (RSeq a b)
  from RSeq.prems have "rmatch a st (\<lambda>st'. rmatch b st' k) = Some x" by simp
  from RSeq.IH(1) [OF this] obtain st1 where
    b: "rmatch b st1 k = Some x" and s1: "cap_keys st \<union> sure a \<subseteq> cap_keys st1" by blast
  from RSeq.IH(2) [OF b] obtain st2 where
    "k st2 = Some x" "cap_keys st1 \<union> sure b \<subseteq> cap_keys st2" by blast
  with s1 show ?case by auto
next
  case (RAlt a b)
  show ?case
  proof (cases "rmatch a st k")
    case None
    with RAlt.prems have "rmatch b st k = Some x" by simp
    from RAlt.IH(2) [OF this] show ?thesis by auto
  next
    case (Some r)
    with RAlt.prems have "rmatch a st k = Some x" by simp
    from RAlt.IH(1) [OF this] show ?thesis by auto
  qed
next
  case (RStar a)
  have m: "\<And>st k x. rmatch a st k = Some x \<Longrightarrow> \<exists>st'. k st' = Some x \<and> cap_keys st \<subseteq> cap_keys st'"
    using RStar.IH by blast
  from RStar.prems have "star_greedy (rmatch a) (length (rest st)) st k = Some x" by simp
  from star_greedy_cont [of "rmatch a", OF m this] show ?case by simp
next
  case (RLazyStar a)
  have m: "\<And>st k x. rmatch a st k = Some x \<Longrightarrow> \<exists>st'. k st' = Some x \<and> cap_keys st \<subseteq> cap_keys st'"
    using RLazyStar.IH by blast
  from RLazyStar.prems have "star_lazy (rmatch a) (length (rest st)) st k = Some x" by simp
  from star_lazy_cont [of "rmatch a", OF m this] show ?case by simp
next
  case (ROpt a)
  show ?case
  proof (cases "rmatch a st k")
    case None
    with ROpt.prems show ?thesis by auto
  next
    case (Some r)
    with ROpt.prems have "rmatch a st k = Some x" by simp
    from ROpt.IH [OF this] show ?thesis by auto
  qed
next
  case (RGroup i a)
  let ?k = "\<lambda>st'. k (st'\<lparr>caps := (i, consumed st st') # caps st'\<rparr>)"
  from RGroup.prems have "rmatch a st ?k = Some x" by simp
  from RGroup.IH [OF this] obtain st1 where
    k1: "?k st1 = Some x" and s1: "cap_keys st \<union> sure a \<subseteq> cap_keys st1" by blast
  have "cap_keys (st1\<lparr>caps := (i, consumed st st1) # caps st1\<rparr>) = insert i (cap_keys st1)"
    by (simp add: cap_keys_def)
  with k1 s1 show ?case by (intro exI [of _ "st1\<lparr>caps := (i, consumed st st1) # caps st1\<rparr>"]) auto
next
  case RBol
  then show ?case by (auto split: if_splits)
next
  case RWordB
  then show ?case by (auto split: if_splits)
qed

lemma exec_from_sure: "exec_from r bs s = Some m \<Longrightarrow> sure r \<subseteq> cap_keys m"
proof (induction s arbitrary: bs)
  case Nil
  then show ?case using rmatch_cont [of r _ Some m] by auto
next
  case (Cons c cs)
  show ?case
  proof (cases "rmatch r \<lparr>seen = bs, rest = c # cs, caps = []\<rparr> Some")
    case None
    with Cons show ?thesis by simp
  next
    case (Some st)
    with Cons.prems have "rmatch r \<lparr>seen = bs, rest = c # cs, caps = []\<rparr> Some = Some m" by simp
    from rmatch_cont [OF this] show ?thesis by auto
  qed
qed

lemma exec_cap: "exec r s = Some m \<Longrightarrow> i \<in> sure r \<Longrightarrow> \<exists>w. cap m i = Some w"
proof -
  assume "exec r s = Some m" and i: "i \<in> sure r"
  then have "sure r \<subseteq> cap_keys m" by (simp add: exec_def exec_from_sure)
  with i have "i \<in> fst ` set (caps m)" by (auto simp: cap_keys_def)
  then show ?thesis by (cases "map_of (caps m) i") (auto simp: cap_def map_of_eq_None_iff)
qed

subsection \<open>The parser returns a statement for every line it keeps\<close>

lemma complete_getLanguagePatterns:
  "language \<notin> set object_prototype_members \<Longrightarrow> complete (getLanguagePatterns language)"
  by (simp add: complete_def getLanguagePatterns_def javascript_patterns_def python_patterns_def
    java_patterns_def cpp_patterns_def)

lemma profiles_not_inherited:
  "''javascript'' \<notin> set object_prototype_members"
  "''python'' \<notin> set object_prototype_members"
  "''java'' \<notin> set object_prototype_members"
  "''cpp'' \<notin> set object_prototype_members"
  by (simp_all add: object_prototype_members_def)

lemma getIndentation_ok: "\<exists>n. getIndentation line = Inr n"
proof (cases "exec (cat [RBol, RGroup 1 ws]) line")
  case None
  then show ?thesis by (simp add: getIndentation_def)
next
  case (Some m)
  have "1 \<in> sure (cat [RBol, RGroup 1 ws])" by simp
  from exec_cap [OF Some this] obtain w where "cap m 1 = Some w" ..
  with Some show ?thesis by (simp add: getIndentation_def)
qed

lemma must_exec_ok: "pat_test p line \<Longrightarrow> \<exists>m. must_exec p line = Inr m"
  by (auto simp: pat_test_def must_exec_def test_def split: option.splits)

lemma extractLoopInfo_ok: "\<exists>li. extractLoopInfo language line = Inr li"
proof (cases "language = ''python''")
  case True
  then show ?thesis by (simp add: extractLoopInfo_def split: option.splits)
next
  case False
  show ?thesis
  proof (cases "exec c_for_re line")
    case None
    with False show ?thesis by (simp add: extractLoopInfo_def)
  next
    case (Some m)
    have "1 \<in> sure c_for_re" by (simp add: c_for_re_def)
    from exec_cap [OF Some this] obtain w where "cap m 1 = Some w" ..
    with Some False show ?thesis by (simp add: extractLoopInfo_def Let_def)
  qed
qed

lemma extractFunctionCall_ok: "complete pats \<Longrightarrow> \<exists>r. extractFunctionCall pats line = Inr r"
  by (auto simp: complete_def extractFunctionCall_def must_test_def split: option.splits sum.splits bool.splits)

lemma generic_statement_sel [simp]:
  "s_type (generic_statement line n i) = TStatement"
  "s_code (generic_statement line n i) = line"
  "s_line (generic_statement line n i) = n"
  "s_indent (generic_statement line n i) = i"
  "s_condition (generic_statement line n i) = None"
  by (simp_all add: generic_statement_def mk_statement_def)

lemma mk_statement_sel [simp]:
  "s_type (mk_statement t n i line d) = t"
  "s_code (mk_statement t n i line d) = line"
  "s_line (mk_statement t n i line d) = n"
  "s_indent (mk_statement t n i line d) = i"
  "s_condition (mk_statement t n i line d) = None"
  by (simp_all add: mk_statement_def)

lemma assignment_or_generic_ok:
  assumes "complete pats"
  shows "\<exists>s. assignment_or_generic pats line n i = Inr s \<and> s_code s = line \<and> s_line s = n \<and>
    s_indent s = i \<and> s_type s \<in> {TAssignment, TStatement} \<and> s_condition s = None"
proof (cases "pat_test (p_assignment pats) line")
  case False
  then show ?thesis by (simp add: assignment_or_generic_def)
next
  case True
  from must_exec_ok [OF True] obtain m where m: "must_exec (p_assignment pats) line = Inr m" ..
  from True have "p_assignment pats \<noteq> None" by (auto simp: pat_test_def split: option.splits)
  with assms obtain r where "p_variable pats = Some r" by (auto simp: complete_def)
  with True m show ?thesis
    by (simp add: assignment_or_generic_def must_test_def split: bool.splits)
qed

lemma analyzeLine_ok:
  assumes "complete pats"
  shows "\<exists>s. analyzeLine language pats line n i = Inr s \<and> s_code s = line \<and> s_line s = n \<and>
    s_indent s = i"
proof -
  consider (var) "pat_test (p_variable pats) line"
    | (fn) "\<not> pat_test (p_variable pats) line" "pat_test (p_function pats) line"
    | (other) "\<not> pat_test (p_variable pats) line" "\<not> pat_test (p_function pats) line"
    by blast
  then show ?thesis
  proof cases
    case var
    from must_exec_ok [OF var] obtain m where "must_exec (p_variable pats) line = Inr m" ..
    with var show ?thesis by (simp add: analyzeLine_def Let_def)
  next
    case fn
    from must_exec_ok [OF fn(2)] obtain m where "must_exec (p_function pats) line = Inr m" ..
    with fn show ?thesis by (simp add: analyzeLine_def Let_def)
  next
    case other
    obtain li where li: "extractLoopInfo language line = Inr li"
      using extractLoopInfo_ok by blast
    obtain r where r: "extractFunctionCall pats line = Inr r"
      using extractFunctionCall_ok [OF assms] by blast
    obtain s where s: "assignment_or_generic pats line n i = Inr s" "s_code s = line"
      "s_line s = n" "s_indent s = i"
      using assignment_or_generic_ok [OF assms] by blast
    from other li r s show ?thesis
      by (cases r) (simp_all add: analyzeLine_def Let_def)
  qed
qed

lemma statements_record_statement [simp]:
  "a_statements (record_statement s a) = a_statements a @ [s]"
  by (simp add: record_statement_def Let_def split: option.splits)

lemma parse_lines_ok:
  assumes "complete pats"
  shows "\<exists>a' new. parse_lines language pats ls n a = Inr a' \<and>
    a_statements a' = a_statements a @ new \<and>
    map (\<lambda>s. (s_line s, s_code s)) new = retained pats (Suc n) ls \<and>
    (\<forall>s \<in> set new. from_line language pats s)"
proof (induction ls arbitrary: n a)
  case Nil
  show ?case by (simp add: retained_def enumerate_eq_zip)
next
  case (Cons l ls)
  show ?case
  proof (cases "kept pats l")
    case False
    from Cons.IH [of "Suc n" a] obtain a' new where
      "parse_lines language pats ls (Suc n) a = Inr a'" "a_statements a' = a_statements a @ new"
      "map (\<lambda>s. (s_line s, s_code s)) new = retained pats (Suc (Suc n)) ls"
      "\<forall>s \<in> set new. from_line language pats s" by blast
    with False show ?thesis
      by (auto simp: kept_def retained_def Let_def)
  next
    case True
    obtain ind where ind: "getIndentation l = Inr ind" using getIndentation_ok by blast
    obtain s where s: "analyzeLine language pats (trim l) (Suc n) (ind div 2) = Inr s"
      "s_code s = trim l" "s_line s = Suc n" "s_indent s = ind div 2"
      using analyzeLine_ok [OF assms] by blast
    from Cons.IH [of "Suc n" "record_statement s a"] obtain a' new where r:
      "parse_lines language pats ls (Suc n) (record_statement s a) = Inr a'"
      "a_statements a' = a_statements (record_statement s a) @ new"
      "map (\<lambda>s. (s_line s, s_code s)) new = retained pats (Suc (Suc n)) ls"
      "\<forall>s \<in> set new. from_line language pats s" by blast
    have fl: "from_line language pats s" using s by (simp add: from_line_def)
    from True ind s r fl show ?thesis
      by (intro exI [of _ a'] exI [of _ "s # new"]) (auto simp: kept_def retained_def Let_def)
  qed
qed

lemma parseCode_ok:
  assumes "language \<notin> set object_prototype_members"
  shows "\<exists>a. parseCode language code = Inr a \<and>
     map (\<lambda>s. (s_line s, s_code s)) (a_statements a) =
       retained (getLanguagePatterns language) 1 (split_on CHR 0x0A code) \<and>
     (\<forall>s \<in> set (a_statements a). from_line language (getLanguagePatterns language) s)"
  using parse_lines_ok [OF complete_getLanguagePatterns [OF assms], of language
    "split_on CHR 0x0A code" 0]
  by (fastforce simp: parseCode_def Let_def)

lemma assignment_or_generic_fields:
  "assignment_or_generic pats line n i = Inr s \<Longrightarrow>
     s_code s = line \<and> s_line s = n \<and> s_indent s = i \<and> s_condition s = None"
  by (auto simp: assignment_or_generic_def split: if_splits sum.splits bool.splits)

lemma analyzeLine_fields:
  assumes "analyzeLine language pats line n i = Inr s"
  shows "s_code s = line \<and> s_line s = n \<and> s_indent s = i"
proof -
  consider (var) "pat_test (p_variable pats) line"
    | (fn) "\<not> pat_test (p_variable pats) line" "pat_test (p_function pats) line"
    | (cond) "\<not> pat_test (p_variable pats) line" "\<not> pat_test (p_function pats) line"
        "pat_test (p_if pats) line"
    | (forloop) "\<not> pat_test (p_variable pats) line" "\<not> pat_test (p_function pats) line"
        "\<not> pat_test (p_if pats) line" "pat_test (p_for pats) line"
    | (whileloop) "\<not> pat_test (p_variable pats) line" "\<not> pat_test (p_function pats) line"
        "\<not> pat_test (p_if pats) line" "\<not> pat_test (p_for pats) line" "pat_test (p_while pats) line"
    | (other) "\<not> pat_test (p_variable pats) line" "\<not> pat_test (p_function pats) line"
        "\<not> pat_test (p_if pats) line" "\<not> pat_test (p_for pats) line"
        "\<not> pat_test (p_while pats) line"
    by blast
  then show ?thesis
  proof cases
    case var
    with assms show ?thesis by (auto simp: analyzeLine_def Let_def split: sum.splits)
  next
    case fn
    with assms show ?thesis by (auto simp: analyzeLine_def Let_def split: sum.splits)
  next
    case cond
    with assms show ?thesis by (auto simp: analyzeLine_def Let_def)
  next
    case forloop
    with assms show ?thesis by (auto simp: analyzeLine_def Let_def split: sum.splits)
  next
    case whileloop
    with assms show ?thesis by (auto simp: analyzeLine_def Let_def)
  next
    case other
    with assms show ?thesis
      by (auto simp: analyzeLine_def Let_def dest: assignment_or_generic_fields
          split: sum.splits option.splits if_splits)
  qed
qed

lemma parse_lines_sound:
  "parse_lines language pats ls n a = Inr a' \<Longrightarrow>
     \<exists>new. a_statements a' = a_statements a @ new \<and>
       map (\<lambda>s. (s_line s, s_code s)) new = retained pats (Suc n) ls \<and>
       (\<forall>s \<in> set new. from_line language pats s)"
proof (induction ls arbitrary: n a)
  case Nil
  then show ?case by (simp add: retained_def enumerate_eq_zip)
next
  case (Cons l ls)
  show ?case
  proof (cases "kept pats l")
    case False
    with Cons.prems have "parse_lines language pats ls (Suc n) a = Inr a'"
      by (auto simp: kept_def Let_def)
    from Cons.IH [OF this] False show ?thesis by (auto simp: retained_def)
  next
    case True
    with Cons.prems obtain ind s where ind: "getIndentation l = Inr ind"
      and s: "analyzeLine language pats (trim l) (Suc n) (ind div 2) = Inr s"
      and r: "parse_lines language pats ls (Suc n) (record_statement s a) = Inr a'"
      by (auto simp: kept_def Let_def split: sum.splits)
    from analyzeLine_fields [OF s] have f: "s_code s = trim l" "s_line s = Suc n"
      "s_indent s = ind div 2" by simp_all
    with s have fl: "from_line language pats s" by (simp add: from_line_def)
    from Cons.IH [OF r] obtain new where new:
      "a_statements a' = a_statements (record_statement s a) @ new"
      "map (\<lambda>s. (s_line s, s_code s)) new = retained pats (Suc (Suc n)) ls"
      "\<forall>s \<in> set new. from_line language pats s" by blast
    from True f fl new show ?thesis
      by (intro exI [of _ "s # new"]) (auto simp: retained_def)
  qed
qed

lemma parseCode_sound:
  assumes "parseCode language code = Inr a"
  shows "map (\<lambda>s. (s_line s, s_code s)) (a_statements a) =
       retained (getLanguagePatterns language) 1 (split_on CHR 0x0A code)"
    and "\<forall>s \<in> set (a_statements a). from_line language (getLanguagePatterns language) s"
proof -
  from assms have "parse_lines language (getLanguagePatterns language) (split_on CHR 0x0A code) 0
     \<lparr>a_language = language, a_totalLines = length (split_on CHR 0x0A code), a_statements = [],
      a_variables = [], a_functions = [], a_controlStructures = [], a_complexity = 0\<rparr> = Inr a"
    by (simp add: parseCode_def Let_def)
  from parse_lines_sound [OF this]
  show "map (\<lambda>s. (s_line s, s_code s)) (a_statements a) =
       retained (getLanguagePatterns language) 1 (split_on CHR 0x0A code)"
    and "\<forall>s \<in> set (a_statements a). from_line language (getLanguagePatterns language) s"
    by auto
qed

lemma inherited_name_raises:
  "parseCode ''toString'' ''foo()'' = Inl TypeError"
  by code_simp

lemma inherited_name_keeps_comments:
  "map s_code (a_statements (projr (parseCode ''constructor'' ''// c''))) = [''// c'']"
  by code_simp

subsection \<open>Node identifiers are distinct\<close>

lemma digit_char_inj: "d < 10 \<Longrightarrow> e < 10 \<Longrightarrow> digit_char d = digit_char e \<Longrightarrow> d = e"
proof -
  assume d: "d < 10" and e: "e < 10" and eq: "digit_char d = digit_char e"
  from eq have "(of_char (char_of (48 + d)) :: nat) = of_char (char_of (48 + e))"
    by (simp add: digit_char_def)
  with d e show "d = e" by simp
qed

lemma show_nat_nonempty: "show_nat n \<noteq> []"
  by (subst show_nat.simps) simp

lemma show_nat_inj: "show_nat n = show_nat m \<Longrightarrow> n = m"
proof (induction n arbitrary: m rule: less_induct)
  case (less n)
  show ?case
  proof (cases "n < 10")
    case True
    show ?thesis
    proof (cases "m < 10")
      case m: True
      from less.prems True m have "digit_char n = digit_char m"
        by (simp add: show_nat.simps [of n] show_nat.simps [of m])
      with True m show ?thesis by (intro digit_char_inj)
    next
      case m: False
      from less.prems True m have "[digit_char n] = show_nat (m div 10) @ [digit_char (m mod 10)]"
        by (simp add: show_nat.simps [of n] show_nat.simps [of m])
      then have "show_nat (m div 10) = []" by simp
      with show_nat_nonempty show ?thesis by blast
    qed
  next
    case False
    show ?thesis
    proof (cases "m < 10")
      case m: True
      from less.prems False m have "show_nat (n div 10) @ [digit_char (n mod 10)] = [digit_char m]"
        by (simp add: show_nat.simps [of n] show_nat.simps [of m])
      then have "show_nat (n div 10) = []" by simp
      with show_nat_nonempty show ?thesis by blast
    next
      case m: False
      from less.prems False m
      have "show_nat (n div 10) @ [digit_char (n mod 10)] = show_nat (m div 10) @ [digit_char (m mod 10)]"
        by (simp add: show_nat.simps [of n] show_nat.simps [of m])
      then have a: "show_nat (n div 10) = show_nat (m div 10)"
        and b: "digit_char (n mod 10) = digit_char (m mod 10)" by simp_all
      from False have "n div 10 < n" by simp
      from less.IH [OF this a] have q: "n div 10 = m div 10" .
      from b have r: "n mod 10 = m mod 10" by (intro digit_char_inj) simp_all
      from q r show ?thesis by (metis div_mult_mod_eq)
    qed
  qed
qed

lemma node_id_inj [simp]: "node_id a = node_id b \<longleftrightarrow> a = b"
  by (auto simp: node_id_def dest: show_nat_inj)

subsection \<open>The list of nodes\<close>

lemma stmt_node_sel [simp]:
  "n_id (stmt_node c i s) = node_id c"
  "n_type (stmt_node c i s) = type_name (s_type s)"
  "n_statement (stmt_node c i s) = Some s"
  "n_connectsToEnd (stmt_node c i s) = (s_type s = TReturn)"
  "n_shape (stmt_node c i s) \<noteq> ''ellipse''"
  by (cases "s_type s"; simp add: stmt_node_def createNodeFromStatement_def Let_def)+

lemma terminal_node_sel [simp]:
  "n_id (terminal_node c t) = node_id c"
  "n_type (terminal_node c t) = t"
  "n_statement (terminal_node c t) = None"
  "n_connectsToEnd (terminal_node c t) = False"
  "n_shape (terminal_node c t) = ''ellipse''"
  by (simp_all add: terminal_node_def)

lemma type_name_not_terminal [simp]:
  "type_name t \<noteq> ''start''" "type_name t \<noteq> ''end''"
  by (cases t; simp)+

lemma statement_nodes_map:
  "statement_nodes c i ss = map (\<lambda>j. stmt_node (c + j) (i + j) (ss ! j)) [0..<length ss]"
proof (induction ss arbitrary: c i)
  case Nil
  show ?case by simp
next
  case (Cons s ss)
  have "map (\<lambda>j. stmt_node (c + j) (i + j) ((s # ss) ! j)) [0..<length (s # ss)] =
    stmt_node c i s # map (\<lambda>j. stmt_node (c + j) (i + j) ((s # ss) ! j)) (map Suc [0..<length ss])"
    by (simp add: upt_conv_Cons map_Suc_upt del: upt_Suc)
  also have "\<dots> = stmt_node c i s # map (\<lambda>j. stmt_node (c + 1 + j) (i + 1 + j) (ss ! j)) [0..<length ss]"
    by simp
  also have "\<dots> = statement_nodes c i (s # ss)"
    by (simp add: Cons.IH stmt_node_def Let_def)
  finally show ?case by simp
qed

lemma createNodes_eq:
  "fst (createNodes c ss) =
     terminal_node c ''start''
       # map (\<lambda>j. stmt_node (c + 1 + j) j (ss ! j)) [0..<length ss]
       @ [terminal_node (c + 1 + length ss) ''end'']"
  by (simp add: createNodes_def statement_nodes_map)

lemma createNodes_length [simp]: "length (fst (createNodes c ss)) = length ss + 2"
  by (simp add: createNodes_eq)

lemma createNodes_nth:
  "fst (createNodes c ss) ! 0 = terminal_node c ''start''"
  "j < length ss \<Longrightarrow> fst (createNodes c ss) ! Suc j = stmt_node (c + 1 + j) j (ss ! j)"
  "fst (createNodes c ss) ! Suc (length ss) = terminal_node (c + 1 + length ss) ''end''"
  by (simp_all add: createNodes_eq nth_append)

lemma createNodes_ids:
  "map n_id (fst (createNodes c ss)) = map (\<lambda>j. node_id (c + j)) [0..<length ss + 2]"
proof (rule nth_equalityI)
  show "length (map n_id (fst (createNodes c ss))) = length (map (\<lambda>j. node_id (c + j)) [0..<length ss + 2])"
    by simp
next
  fix j assume "j < length (map n_id (fst (createNodes c ss)))"
  then have j: "j < length ss + 2" by simp
  consider "j = 0" | k where "j = Suc k" "k < length ss" | "j = Suc (length ss)"
    using j by (cases j) (auto simp: less_Suc_eq)
  then have "n_id (fst (createNodes c ss) ! j) = node_id (c + j)"
    by cases (simp_all add: createNodes_nth)
  with j show "map n_id (fst (createNodes c ss)) ! j = map (\<lambda>j. node_id (c + j)) [0..<length ss + 2] ! j"
    by (simp del: upt_Suc)
qed

lemma createNodes_distinct: "distinct (map n_id (fst (createNodes c ss)))"
  unfolding createNodes_ids by (simp add: distinct_map inj_on_def del: upt_Suc)

lemma createNodes_ok: "nodes_ok (fst (createNodes c ss))"
  by (auto simp: nodes_ok_def createNodes_eq loop_type_def)

subsection \<open>The connections of one node\<close>

lemma find_in_set: "find P xs = Some x \<Longrightarrow> x \<in> set xs"
  by (auto simp: find_Some_iff)

lemma last_in_later:
  assumes "i + 1 < length N"
  shows "n_id (last N) \<in> later_ids N i"
proof -
  from assms have "drop (i + 1) N \<noteq> []" by simp
  then have "last (drop (i + 1) N) \<in> set (drop (i + 1) N)" by (rule last_in_set)
  moreover from assms have "last (drop (i + 1) N) = last N" by simp
  ultimately show ?thesis by (auto simp: later_ids_def)
qed

lemma next_in_later: "i + 1 < length N \<Longrightarrow> n_id (N ! (i + 1)) \<in> later_ids N i"
proof -
  assume a: "i + 1 < length N"
  then have "N ! (i + 1) = hd (drop (i + 1) N)" by (simp add: hd_drop_conv_nth)
  moreover from a have "drop (i + 1) N \<noteq> []" by simp
  ultimately have "N ! (i + 1) \<in> set (drop (i + 1) N)" by (metis hd_in_set)
  then show ?thesis by (auto simp: later_ids_def)
qed

lemma drop2_in_later: "n \<in> set (drop (i + 2) N) \<Longrightarrow> n_id n \<in> later_ids N i"
proof -
  assume "n \<in> set (drop (i + 2) N)"
  then have "n \<in> set (drop 1 (drop (i + 1) N))" by simp
  then have "n \<in> set (drop (i + 1) N)" by (rule in_set_dropD)
  then show ?thesis by (auto simp: later_ids_def)
qed

lemma findElseTarget_ok:
  assumes "n_statement x \<noteq> None" "i + 1 < length N"
  shows "\<exists>t. findElseTarget x N i = Inr t \<and> t \<in> later_ids N i"
proof -
  from assms(1) obtain s where s: "n_statement x = Some s" by auto
  show ?thesis
  proof (cases "find (indent_at_most (s_indent s)) (drop (i + 2) N)")
    case None
    with s assms(2) last_in_later [OF assms(2)] show ?thesis
      by (auto simp: findElseTarget_def last_id_def)
  next
    case (Some n)
    from find_in_set [OF this] have "n_id n \<in> later_ids N i" by (rule drop2_in_later)
    with s Some show ?thesis by (simp add: findElseTarget_def)
  qed
qed

lemma findLoopExit_eq: "findLoopExit x N i = findElseTarget x N i"
  by (simp add: findLoopExit_def findElseTarget_def)

lemma findLoopBack_ok:
  assumes "n_statement x \<noteq> None"
  shows "\<exists>b. findLoopBack x N i = Inr b \<and> (\<forall>t. b = Some t \<longrightarrow> t \<in> later_ids N i)"
proof -
  from assms obtain s where s: "n_statement x = Some s" by auto
  let ?body = "takeWhile (indent_above (s_indent s)) (drop (i + 1) N)"
  have "?body \<noteq> [] \<Longrightarrow> n_id (last ?body) \<in> later_ids N i"
  proof -
    assume "?body \<noteq> []"
    then have "last ?body \<in> set ?body" by (rule last_in_set)
    then have "last ?body \<in> set (drop (i + 1) N)" by (rule set_takeWhileD [THEN conjunct1])
    then show ?thesis by (auto simp: later_ids_def)
  qed
  with s show ?thesis by (simp add: findLoopBack_def Let_def)
qed

lemma connections_at_start:
  "n_type (N ! i) = ''start'' \<Longrightarrow>
    connections_at N i = Inr [plain (n_id (N ! i)) (n_id (N ! (i + 1)))]"
  by (simp add: connections_at_def Let_def)

lemma connections_at_if:
  assumes "n_type (N ! i) = ''if''" "n_statement (N ! i) \<noteq> None" "i + 1 < length N"
  shows "\<exists>t. t \<in> later_ids N i \<and> connections_at N i =
    Inr [styled (n_id (N ! i)) (n_id (N ! (i + 1))) ''Yes'' ''stroke:#27ae60,stroke-width:2px'',
         styled (n_id (N ! i)) t ''No'' ''stroke:#e74c3c,stroke-width:2px'']"
proof -
  from findElseTarget_ok [OF assms(2,3)] obtain t where
    "findElseTarget (N ! i) N i = Inr t" "t \<in> later_ids N i" by blast
  with assms(1) show ?thesis by (intro exI [of _ t]) (simp add: connections_at_def Let_def)
qed

lemma connections_at_loop:
  assumes "loop_type (N ! i)" "n_statement (N ! i) \<noteq> None" "i + 1 < length N"
  shows "\<exists>t bs. t \<in> later_ids N i \<and>
    (bs = [] \<or> (\<exists>b \<in> later_ids N i. bs = [styled b (n_id (N ! i)) ''Loop''
        ''stroke:#f39c12,stroke-width:2px,stroke-dasharray: 5 5''])) \<and>
    connections_at N i =
    Inr ([styled (n_id (N ! i)) (n_id (N ! (i + 1))) ''Continue'' ''stroke:#3498db,stroke-width:2px'',
          styled (n_id (N ! i)) t ''Exit'' ''stroke:#e74c3c,stroke-width:2px''] @ bs)"
proof -
  from findElseTarget_ok [OF assms(2,3)] obtain t where
    t: "findLoopExit (N ! i) N i = Inr t" "t \<in> later_ids N i" by (auto simp: findLoopExit_eq)
  from findLoopBack_ok [OF assms(2)] obtain b where
    b: "findLoopBack (N ! i) N i = Inr b" "\<forall>u. b = Some u \<longrightarrow> u \<in> later_ids N i" by blast
  have ty: "n_type (N ! i) \<noteq> ''start''" "n_type (N ! i) \<noteq> ''if''"
    "n_type (N ! i) = ''for'' \<or> n_type (N ! i) = ''while''"
    using assms(1) by (auto simp: loop_type_def)
  let ?bs = "case b of None \<Rightarrow> []
    | Some u \<Rightarrow> if u = [] then [] else [styled u (n_id (N ! i)) ''Loop''
        ''stroke:#f39c12,stroke-width:2px,stroke-dasharray: 5 5'']"
  have 1: "?bs = [] \<or> (\<exists>b \<in> later_ids N i. ?bs = [styled b (n_id (N ! i)) ''Loop''
        ''stroke:#f39c12,stroke-width:2px,stroke-dasharray: 5 5''])"
    using b(2) by (cases b) auto
  have 2: "connections_at N i =
    Inr ([styled (n_id (N ! i)) (n_id (N ! (i + 1))) ''Continue'' ''stroke:#3498db,stroke-width:2px'',
          styled (n_id (N ! i)) t ''Exit'' ''stroke:#e74c3c,stroke-width:2px''] @ ?bs)"
    using ty t(1) b(1) unfolding connections_at_def Let_def by (simp only: if_False if_True sum.case)
  from t(2) 1 2 show ?thesis by blast
qed

lemma connections_at_return:
  assumes "n_type (N ! i) \<noteq> ''start''" "n_type (N ! i) \<noteq> ''if''" "\<not> loop_type (N ! i)"
    "n_connectsToEnd (N ! i)" "N \<noteq> []"
  shows "connections_at N i = Inr [plain (n_id (N ! i)) (n_id (last N))]"
  using assms by (simp add: connections_at_def Let_def loop_type_def last_id_def)

lemma connections_at_plain:
  assumes "n_type (N ! i) \<noteq> ''start''" "n_type (N ! i) \<noteq> ''if''" "\<not> loop_type (N ! i)"
    "\<not> n_connectsToEnd (N ! i)" "n_type (N ! i) \<noteq> ''end''"
  shows "connections_at N i = Inr [plain (n_id (N ! i)) (n_id (N ! (i + 1)))]"
  using assms by (simp add: connections_at_def Let_def loop_type_def)

lemma connections_at_ok:
  assumes ok: "nodes_ok N" and i: "i + 1 < length N" and ne: "n_type (N ! i) \<noteq> ''end''"
  shows "\<exists>cs. connections_at N i = Inr cs \<and> cs \<noteq> [] \<and> c_from (hd cs) = n_id (N ! i) \<and>
    (\<forall>c \<in> set cs. conn_ok N i c)"
proof -
  from i have mem: "N ! i \<in> set N" by simp
  have nx: "n_id (N ! (i + 1)) \<in> later_ids N i" using i by (rule next_in_later)
  have la: "n_id (last N) \<in> later_ids N i" using i by (rule last_in_later)
  consider (start) "n_type (N ! i) = ''start''"
    | (cond) "n_type (N ! i) = ''if''"
    | (loop) "loop_type (N ! i)"
    | (ret) "n_type (N ! i) \<noteq> ''start''" "n_type (N ! i) \<noteq> ''if''" "\<not> loop_type (N ! i)"
        "n_connectsToEnd (N ! i)"
    | (plain) "n_type (N ! i) \<noteq> ''start''" "n_type (N ! i) \<noteq> ''if''" "\<not> loop_type (N ! i)"
        "\<not> n_connectsToEnd (N ! i)"
    by blast
  then show ?thesis
  proof cases
    case start
    from connections_at_start [OF this] nx show ?thesis
      by (simp add: conn_ok_def plain_def)
  next
    case cond
    with ok mem have "n_statement (N ! i) \<noteq> None" by (auto simp: nodes_ok_def)
    from connections_at_if [OF cond this i] nx show ?thesis
      by (auto simp: conn_ok_def styled_def)
  next
    case loop
    with ok mem have "n_statement (N ! i) \<noteq> None" by (auto simp: nodes_ok_def)
    from connections_at_loop [OF loop this i] obtain t bs where
      t: "t \<in> later_ids N i" and
      bs: "bs = [] \<or> (\<exists>b \<in> later_ids N i. bs = [styled b (n_id (N ! i)) ''Loop''
        ''stroke:#f39c12,stroke-width:2px,stroke-dasharray: 5 5''])" and
      eq: "connections_at N i =
        Inr ([styled (n_id (N ! i)) (n_id (N ! (i + 1))) ''Continue'' ''stroke:#3498db,stroke-width:2px'',
          styled (n_id (N ! i)) t ''Exit'' ''stroke:#e74c3c,stroke-width:2px''] @ bs)"
      by blast
    have "\<forall>c \<in> set bs. conn_ok N i c"
      using bs loop by (auto simp: conn_ok_def styled_def)
    with eq t nx show ?thesis by (auto simp: conn_ok_def styled_def)
  next
    case ret
    from i have "N \<noteq> []" by auto
    from connections_at_return [OF ret this] la show ?thesis
      by (simp add: conn_ok_def plain_def)
  next
    case plain
    from connections_at_plain [OF plain ne] nx show ?thesis
      by (simp add: conn_ok_def plain_def)
  qed
qed

subsection \<open>All connections\<close>

lemma connections_loop_ok:
  "\<forall>i \<in> set js. \<exists>cs. connections_at N i = Inr cs \<Longrightarrow>
    connections_loop N js = Inr (concat (map (edges_at N) js))"
  by (induction js) (auto simp: edges_at_def)

lemma createNodes_not_end:
  "i < length ss + 1 \<Longrightarrow> n_type (fst (createNodes c ss) ! i) \<noteq> ''end''"
  by (cases i) (simp_all add: createNodes_nth)

lemma createNodes_edges:
  assumes "i < length ss + 1"
  shows "connections_at (fst (createNodes c ss)) i = Inr (edges_at (fst (createNodes c ss)) i)"
    and "edges_at (fst (createNodes c ss)) i \<noteq> []"
    and "c_from (hd (edges_at (fst (createNodes c ss)) i)) = n_id (fst (createNodes c ss) ! i)"
    and "\<forall>e \<in> set (edges_at (fst (createNodes c ss)) i). conn_ok (fst (createNodes c ss)) i e"
proof -
  let ?N = "fst (createNodes c ss)"
  from assms have "i + 1 < length ?N" by simp
  from connections_at_ok [OF createNodes_ok this createNodes_not_end [OF assms]]
  obtain cs where cs: "connections_at ?N i = Inr cs" "cs \<noteq> []" "c_from (hd cs) = n_id (?N ! i)"
    "\<forall>e \<in> set cs. conn_ok ?N i e" by blast
  then have e: "edges_at ?N i = cs" by (simp add: edges_at_def)
  from cs e show "connections_at ?N i = Inr (edges_at ?N i)" "edges_at ?N i \<noteq> []"
    "c_from (hd (edges_at ?N i)) = n_id (?N ! i)" "\<forall>e \<in> set (edges_at ?N i). conn_ok ?N i e"
    by simp_all
qed

lemma createConnections_eq:
  "createConnections (fst (createNodes c ss)) =
     Inr (concat (map (edges_at (fst (createNodes c ss))) [0..<length ss + 1]))"
proof -
  have "\<forall>i \<in> set [0..<length ss + 1]. \<exists>cs. connections_at (fst (createNodes c ss)) i = Inr cs"
    using createNodes_edges(1) by (auto simp del: upt_Suc)
  from connections_loop_ok [OF this] show ?thesis
    by (simp add: createConnections_def del: upt_Suc)
qed

lemma build_graph_eq:
  "build_graph ss =
     Inr \<lparr>g_nodes = fst (createNodes 1 ss),
          g_connections = concat (map (edges_at (fst (createNodes 1 ss))) [0..<length ss + 1])\<rparr>"
  by (simp add: build_graph_def Let_def createConnections_eq del: upt_Suc)

lemma length_concat_ge:
  "\<forall>x \<in> set xs. f x \<noteq> [] \<Longrightarrow> length xs \<le> length (concat (map f xs))"
proof (induction xs)
  case Nil
  show ?case by simp
next
  case (Cons x xs)
  then have "f x \<noteq> []" by simp
  then have "1 \<le> length (f x)" by (cases "f x") auto
  with Cons show ?case by simp
qed

lemma later_ids_tail:
  assumes "N \<noteq> []" shows "later_ids N i \<subseteq> n_id ` set (tl N)"
proof -
  have "drop (i + 1) N = drop i (tl N)" by (simp add: drop_Suc)
  then have "set (drop (i + 1) N) \<subseteq> set (tl N)" by (simp add: set_drop_subset)
  then show ?thesis by (auto simp: later_ids_def)
qed

lemma later_ids_nodes: "later_ids N i \<subseteq> n_id ` set N"
  by (auto simp: later_ids_def dest: in_set_dropD)

lemma in_concat_upt: "i < n \<Longrightarrow> x \<in> set (f i) \<Longrightarrow> x \<in> set (concat (map f [0..<n]))"
proof -
  assume "i < n" and x: "x \<in> set (f i)"
  then have "i \<in> set [0..<n]" by simp
  then have "f i \<in> f ` set [0..<n]" by (rule imageI)
  then have "f i \<in> set (map f [0..<n])" by (simp only: set_map)
  with x show ?thesis unfolding set_concat by blast
qed

subsection \<open>One statement for every line kept\<close>

lemma length_retained: "length (retained pats n ls) = length (filter (kept pats) ls)"
proof -
  have "length (filter (\<lambda>(i, l). kept pats l) (enumerate n ls)) = length (filter (kept pats) ls)"
    by (induction ls arbitrary: n) auto
  then show ?thesis by (simp add: retained_def)
qed

lemma analyzeLine_unmatched:
  "unmatched pats line \<Longrightarrow> analyzeLine language pats line n i = Inr (generic_statement line n i)"
  by (simp add: unmatched_def analyzeLine_def extractFunctionCall_def test_def
      assignment_or_generic_def)

text \<open>
  Claim C5. For every text and every language that names one of the four profiles or falls
  back to the default one (that is, every language that is not the name of a member that
  the table of patterns inherits), parsing returns a result and never raises. It gives
  exactly one statement for each line that is not blank and that the comment rule of the
  language does not match, in the order of the lines, each with its line number and its
  trimmed text; so the number of statements is the number of such lines. Classifying a line
  always gives a statement, and a line that no rule matches gets the generic kind.
\<close>

theorem one_statement_per_kept_line:
  "language \<notin> set object_prototype_members \<longrightarrow>
   (\<exists>a. parseCode language code = Inr a
     \<and> map (\<lambda>s. (s_line s, s_code s)) (a_statements a) =
         retained (getLanguagePatterns language) 1 (split_on CHR 0x0A code)
     \<and> length (a_statements a) =
         length (filter (kept (getLanguagePatterns language)) (split_on CHR 0x0A code))
     \<and> (\<forall>line n i. \<exists>s. analyzeLine language (getLanguagePatterns language) line n i = Inr s)
     \<and> (\<forall>s \<in> set (a_statements a).
          unmatched (getLanguagePatterns language) (s_code s) \<longrightarrow> s_type s = TStatement))"
proof
  assume lang: "language \<notin> set object_prototype_members"
  let ?pats = "getLanguagePatterns language"
  from parseCode_ok [OF lang, of code] obtain a where a:
    "parseCode language code = Inr a"
    "map (\<lambda>s. (s_line s, s_code s)) (a_statements a) = retained ?pats 1 (split_on CHR 0x0A code)"
    "\<forall>s \<in> set (a_statements a). from_line language ?pats s" by blast
  from a(2) have len: "length (a_statements a) = length (filter (kept ?pats) (split_on CHR 0x0A code))"
    by (metis length_map length_retained)
  have total: "\<forall>line n i. \<exists>s. analyzeLine language ?pats line n i = Inr s"
    using analyzeLine_ok [OF complete_getLanguagePatterns [OF lang]] by blast
  have opaque: "\<forall>s \<in> set (a_statements a). unmatched ?pats (s_code s) \<longrightarrow> s_type s = TStatement"
  proof (intro ballI impI)
    fix s assume "s \<in> set (a_statements a)" and u: "unmatched ?pats (s_code s)"
    with a(3) have "analyzeLine language ?pats (s_code s) (s_line s) (s_indent s) = Inr s"
      by (simp add: from_line_def)
    with analyzeLine_unmatched [OF u, of language "s_line s" "s_indent s"]
    have "s = generic_statement (s_code s) (s_line s) (s_indent s)" by simp
    then show "s_type s = TStatement" by (metis generic_statement_sel(1))
  qed
  from a(1) a(2) len total opaque show "\<exists>a. parseCode language code = Inr a
     \<and> map (\<lambda>s. (s_line s, s_code s)) (a_statements a) =
         retained (getLanguagePatterns language) 1 (split_on CHR 0x0A code)
     \<and> length (a_statements a) =
         length (filter (kept (getLanguagePatterns language)) (split_on CHR 0x0A code))
     \<and> (\<forall>line n i. \<exists>s. analyzeLine language (getLanguagePatterns language) line n i = Inr s)
     \<and> (\<forall>s \<in> set (a_statements a).
          unmatched (getLanguagePatterns language) (s_code s) \<longrightarrow> s_type s = TStatement)"
    by blast
qed

theorem one_statement_per_kept_line_witness:
  "''javascript'' \<notin> set object_prototype_members
   \<and> unmatched (getLanguagePatterns ''javascript'') ''}''
   \<and> map (\<lambda>s. (s_line s, s_code s, s_type s)) (a_statements (projr (parseCode ''javascript'' sample_text)))
       = [(3, ''x = 1'', TAssignment), (4, ''}'', TStatement)]
   \<and> length (filter (kept (getLanguagePatterns ''javascript'')) (split_on CHR 0x0A sample_text)) = 2"
proof -
  have l: "''javascript'' \<notin> set object_prototype_members" by (rule profiles_not_inherited)
  have u: "unmatched (getLanguagePatterns ''javascript'') ''}''" by code_simp
  have p: "map (\<lambda>s. (s_line s, s_code s, s_type s)) (a_statements (projr (parseCode ''javascript'' sample_text)))
       = [(3, ''x = 1'', TAssignment), (4, ''}'', TStatement)]" by code_simp
  from one_statement_per_kept_line [of "''javascript''" sample_text] l p
  have "length (filter (kept (getLanguagePatterns ''javascript'')) (split_on CHR 0x0A sample_text)) = 2"
    by auto
  with l u p show ?thesis by simp
qed

subsection \<open>A line of the shape of an assignment\<close>

lemma star_greedy_class:
  assumes "\<forall>c \<in> set xs. in_class cl c" and "r = [] \<or> \<not> in_class cl (hd r)"
    and "length (xs @ r) \<le> n"
    and "k \<lparr>seen = rev xs @ b, rest = r, caps = cs\<rparr> = Some x"
  shows "star_greedy (rmatch (RCls cl)) n \<lparr>seen = b, rest = xs @ r, caps = cs\<rparr> k = Some x"
  using assms
proof (induction xs arbitrary: n b)
  case Nil
  show ?case
  proof (cases n)
    case 0
    with Nil show ?thesis by simp
  next
    case (Suc n')
    with Nil show ?thesis by (cases r) auto
  qed
next
  case (Cons y ys)
  then obtain n' where n: "n = Suc n'" by (cases n) auto
  have "star_greedy (rmatch (RCls cl)) n' \<lparr>seen = y # b, rest = ys @ r, caps = cs\<rparr> k = Some x"
    using Cons.prems n by (intro Cons.IH) auto
  with Cons.prems(1) n show ?case by (simp add: advance_def)
qed

lemma is_word_not_space: "is_word c \<Longrightarrow> \<not> is_space c"
  by (auto simp: is_word_def is_space_def Let_def)

lemma exec_assignment_shape:
  assumes w: "w \<noteq> []" "\<forall>c \<in> set w. is_word c" and sp: "\<forall>c \<in> set sp. is_space c"
  shows "exec assignment_re (w @ sp @ ''='' @ r) =
    Some \<lparr>seen = CHR ''='' # rev sp @ rev w, rest = r, caps = [(1, w)]\<rparr>"
proof -
  let ?line = "w @ sp @ ''='' @ r"
  let ?st0 = "\<lparr>seen = [], rest = ?line, caps = []\<rparr>"
  let ?tail = "RSeq ws (RLit CHR ''='')"
  let ?k3 = "\<lambda>st'. rmatch ?tail (st'\<lparr>caps := (1, consumed ?st0 st') # caps st'\<rparr>) Some"
  obtain a w' where wa: "w = a # w'" using w(1) by (cases w) auto
  have space_eq: "\<not> is_space CHR ''=''" by (simp add: is_space_def)
  have word_eq: "\<not> is_word CHR ''=''" by (simp add: is_word_def)
  \<comment> \<open>the second run of white space, then the equals sign\<close>
  have "star_greedy (rmatch (RCls CSpace)) (length (sp @ ''='' @ r))
      \<lparr>seen = rev w, rest = sp @ ''='' @ r, caps = [(1, w)]\<rparr>
      (\<lambda>st'. rmatch (RLit CHR ''='') st' Some) =
      Some \<lparr>seen = CHR ''='' # rev sp @ rev w, rest = r, caps = [(1, w)]\<rparr>"
    by (rule star_greedy_class) (use sp space_eq in \<open>auto simp: advance_def\<close>)
  then have tail: "rmatch ?tail \<lparr>seen = rev w, rest = sp @ ''='' @ r, caps = [(1, w)]\<rparr> Some =
      Some \<lparr>seen = CHR ''='' # rev sp @ rev w, rest = r, caps = [(1, w)]\<rparr>"
    by (simp add: ws_def)
  \<comment> \<open>the identifier\<close>
  have bound: "sp @ ''='' @ r = [] \<or> \<not> in_class CWord (hd (sp @ ''='' @ r))"
    using sp word_eq by (cases sp) (auto dest: is_word_not_space)
  have "star_greedy (rmatch (RCls CWord)) (length (w' @ sp @ ''='' @ r))
      \<lparr>seen = [a], rest = w' @ sp @ ''='' @ r, caps = []\<rparr> ?k3 =
      Some \<lparr>seen = CHR ''='' # rev sp @ rev w, rest = r, caps = [(1, w)]\<rparr>"
  proof (rule star_greedy_class [OF _ bound])
    show "\<forall>c \<in> set w'. in_class CWord c" using w(2) wa by simp
    show "length (w' @ sp @ ''='' @ r) \<le> length (w' @ sp @ ''='' @ r)" by simp
    show "?k3 \<lparr>seen = rev w' @ [a], rest = sp @ ''='' @ r, caps = []\<rparr> =
      Some \<lparr>seen = CHR ''='' # rev sp @ rev w, rest = r, caps = [(1, w)]\<rparr>"
      using tail wa by (simp add: consumed_def)
  qed
  then have id: "rmatch (RGroup 1 ident) ?st0 (\<lambda>st'. rmatch ?tail st' Some) =
      Some \<lparr>seen = CHR ''='' # rev sp @ rev w, rest = r, caps = [(1, w)]\<rparr>"
    using w(2) wa by (simp add: ident_def some_def advance_def)
  \<comment> \<open>the first run of white space is empty\<close>
  have first: "?line = [] \<or> \<not> in_class CSpace (hd ?line)"
    using w(2) wa by (auto dest: is_word_not_space)
  have "star_greedy (rmatch (RCls CSpace)) (length ([] @ ?line)) \<lparr>seen = [], rest = [] @ ?line, caps = []\<rparr>
      (\<lambda>st'. rmatch (RGroup 1 ident) st' (\<lambda>st'. rmatch ?tail st' Some)) =
      Some \<lparr>seen = CHR ''='' # rev sp @ rev w, rest = r, caps = [(1, w)]\<rparr>"
    by (rule star_greedy_class [OF _ first]) (use id in auto)
  then have "rmatch assignment_re ?st0 Some =
      Some \<lparr>seen = CHR ''='' # rev sp @ rev w, rest = r, caps = [(1, w)]\<rparr>"
    by (simp add: assignment_re_def ws_def)
  then show ?thesis
    using wa by (simp add: exec_def)
qed

subsection \<open>The Python patterns never give an assignment\<close>

lemma analyzeLine_no_assignment:
  assumes "p_assignment pats = None" and "analyzeLine language pats line n i = Inr s"
  shows "s_type s \<noteq> TAssignment"
proof -
  have g: "assignment_or_generic pats line n i = Inr (generic_statement line n i)"
    using assms(1) by (simp add: assignment_or_generic_def pat_test_def)
  from assms(2) show ?thesis
    unfolding analyzeLine_def Let_def g
    by (auto split: if_splits sum.splits option.splits)
qed

lemma step_actions:
  "s_type s \<noteq> TAssignment \<Longrightarrow>
     \<forall>m \<in> set (e_memoryChanges (createExecutionStep s k)). mc_action m = ''create''"
  by (cases "s_type s") (simp_all add: createExecutionStep_def step_texts_def)

lemma steps_from_set:
  "e \<in> set (steps_from k ss) \<Longrightarrow> \<exists>s \<in> set ss. \<exists>j. e = createExecutionStep s j"
  by (induction ss arbitrary: k) auto

lemma analyzeLine_python_shape:
  assumes "w \<noteq> []" "\<forall>c \<in> set w. is_word c" "\<forall>c \<in> set sp. is_space c"
  shows "analyzeLine ''python'' python_patterns (w @ sp @ ''='' @ r) n i =
    Inr ((mk_statement TVariable n i (w @ sp @ ''='' @ r) (''Declare/assign variable: '' @ w))
          \<lparr>s_name := Some w, s_variables := Some [Some w]\<rparr>)"
proof -
  note e = exec_assignment_shape [OF assms, of r]
  have t: "pat_test (p_variable python_patterns) (w @ sp @ ''='' @ r)"
    using e by (simp add: pat_test_def python_patterns_def test_def)
  have m: "must_exec (p_variable python_patterns) (w @ sp @ ''='' @ r) =
      Inr \<lparr>seen = CHR ''='' # rev sp @ rev w, rest = r, caps = [(1, w)]\<rparr>"
    using e by (simp add: must_exec_def python_patterns_def)
  show ?thesis
    unfolding analyzeLine_def using t m assms(1)
    by (simp add: cap_def js_or_def js_str_def Let_def)
qed

text \<open>
  Claim C10. The Python patterns have no assignment rule, and no statement that the parser
  gives for a Python text has the assignment kind; every memory event of its execution steps
  is a \<open>create\<close>, never an \<open>update\<close>. A line that is an identifier, white space and
  an equals sign is a variable declaration named by the identifier, narrated as the creation
  of that variable, whether or not the variable existed before.
\<close>

theorem python_never_assignment:
  "p_assignment (getLanguagePatterns ''python'') = None
   \<and> (\<exists>a. parseCode ''python'' code = Inr a
        \<and> (\<forall>s \<in> set (a_statements a). s_type s \<noteq> TAssignment)
        \<and> (\<forall>e \<in> set (generateExecutionSteps a).
             \<forall>m \<in> set (e_memoryChanges e). mc_action m = ''create''))
   \<and> (w \<noteq> [] \<and> (\<forall>c \<in> set w. is_word c) \<and> (\<forall>c \<in> set sp. is_space c) \<longrightarrow>
        (\<exists>s. analyzeLine ''python'' (getLanguagePatterns ''python'') (w @ sp @ ''='' @ r) n i = Inr s
           \<and> s_type s = TVariable \<and> s_name s = Some w
           \<and> e_memoryChanges (createExecutionStep s k) =
               [\<lparr>mc_action = ''create'', mc_variable = Some w, mc_type = ''variable''\<rparr>]))"
proof -
  have py: "getLanguagePatterns ''python'' = python_patterns"
    by (simp add: getLanguagePatterns_def)
  have none: "p_assignment (getLanguagePatterns ''python'') = None"
    by (simp add: py python_patterns_def)
  from parseCode_ok [OF profiles_not_inherited(2), of code] obtain a where a:
    "parseCode ''python'' code = Inr a"
    "\<forall>s \<in> set (a_statements a). from_line ''python'' (getLanguagePatterns ''python'') s"
    by blast
  have types: "\<forall>s \<in> set (a_statements a). s_type s \<noteq> TAssignment"
    using a(2) analyzeLine_no_assignment [OF none] by (auto simp: from_line_def)
  have steps: "\<forall>e \<in> set (generateExecutionSteps a). \<forall>m \<in> set (e_memoryChanges e). mc_action m = ''create''"
  proof
    fix e assume "e \<in> set (generateExecutionSteps a)"
    then obtain s j where "s \<in> set (a_statements a)" "e = createExecutionStep s j"
      using steps_from_set by (fastforce simp: generateExecutionSteps_def)
    with types step_actions show "\<forall>m \<in> set (e_memoryChanges e). mc_action m = ''create''"
      by blast
  qed
  have shape: "w \<noteq> [] \<and> (\<forall>c \<in> set w. is_word c) \<and> (\<forall>c \<in> set sp. is_space c) \<longrightarrow>
        (\<exists>s. analyzeLine ''python'' (getLanguagePatterns ''python'') (w @ sp @ ''='' @ r) n i = Inr s
           \<and> s_type s = TVariable \<and> s_name s = Some w
           \<and> e_memoryChanges (createExecutionStep s k) =
               [\<lparr>mc_action = ''create'', mc_variable = Some w, mc_type = ''variable''\<rparr>])"
  proof
    assume h: "w \<noteq> [] \<and> (\<forall>c \<in> set w. is_word c) \<and> (\<forall>c \<in> set sp. is_space c)"
    then have "analyzeLine ''python'' python_patterns (w @ sp @ ''='' @ r) n i =
      Inr ((mk_statement TVariable n i (w @ sp @ ''='' @ r) (''Declare/assign variable: '' @ w))
          \<lparr>s_name := Some w, s_variables := Some [Some w]\<rparr>)"
      by (intro analyzeLine_python_shape) auto
    then show "\<exists>s. analyzeLine ''python'' (getLanguagePatterns ''python'') (w @ sp @ ''='' @ r) n i = Inr s
           \<and> s_type s = TVariable \<and> s_name s = Some w
           \<and> e_memoryChanges (createExecutionStep s k) =
               [\<lparr>mc_action = ''create'', mc_variable = Some w, mc_type = ''variable''\<rparr>]"
      by (simp add: py createExecutionStep_def step_texts_def)
  qed
  from none a(1) types steps shape show ?thesis by blast
qed

theorem python_never_assignment_witness:
  "(''total'' \<noteq> [] \<and> list_all is_word ''total'' \<and> list_all is_space '' '')
   \<and> map s_type (a_statements (projr (parseCode ''python'' reassignment))) = [TVariable, TVariable]
   \<and> map (map mc_action \<circ> e_memoryChanges)
        (generateExecutionSteps (projr (parseCode ''python'' reassignment))) = [[''create''], [''create'']]
   \<and> (\<exists>s. analyzeLine ''python'' (getLanguagePatterns ''python'') (''total'' @ '' '' @ ''='' @ '' total + 2'') 2 0 = Inr s
           \<and> s_type s = TVariable \<and> s_name s = Some ''total''
           \<and> e_memoryChanges (createExecutionStep s 2) =
               [\<lparr>mc_action = ''create'', mc_variable = Some ''total'', mc_type = ''variable''\<rparr>])"
proof -
  have h: "''total'' \<noteq> [] \<and> (\<forall>c \<in> set ''total''. is_word c) \<and> (\<forall>c \<in> set '' ''. is_space c)"
    by (simp add: is_word_def is_space_def)
  have t: "map s_type (a_statements (projr (parseCode ''python'' reassignment))) = [TVariable, TVariable]"
    by code_simp
  have m: "map (map mc_action \<circ> e_memoryChanges)
        (generateExecutionSteps (projr (parseCode ''python'' reassignment))) = [[''create''], [''create'']]"
    by code_simp
  from python_never_assignment [where w = "''total''" and sp = "'' ''" and r = "'' total + 2''"
      and n = 2 and i = 0 and k = 2 and code = reassignment] h
  have "\<exists>s. analyzeLine ''python'' (getLanguagePatterns ''python'') (''total'' @ '' '' @ ''='' @ '' total + 2'') 2 0 = Inr s
           \<and> s_type s = TVariable \<and> s_name s = Some ''total''
           \<and> e_memoryChanges (createExecutionStep s 2) =
               [\<lparr>mc_action = ''create'', mc_variable = Some ''total'', mc_type = ''variable''\<rparr>]"
    by blast
  moreover have "list_all is_word ''total'' \<and> list_all is_space '' ''"
    by (simp add: is_word_def is_space_def)
  ultimately show ?thesis using t m by simp
qed

subsection \<open>The shape of the graph\<close>

lemma graph_edges_cases:
  assumes "e \<in> set (concat (map (edges_at (fst (createNodes c ss))) [0..<length ss + 1]))"
  shows "\<exists>i < length ss + 1. e \<in> set (edges_at (fst (createNodes c ss)) i) \<and>
    conn_ok (fst (createNodes c ss)) i e"
proof -
  from assms obtain i where i: "i < length ss + 1" "e \<in> set (edges_at (fst (createNodes c ss)) i)"
    by (auto simp del: upt_Suc)
  with createNodes_edges(4) [OF i(1), of c] show ?thesis by blast
qed

lemma createNodes_hd_tl:
  "fst (createNodes c ss) \<noteq> []"
  "hd (fst (createNodes c ss)) = terminal_node c ''start''"
  "last (fst (createNodes c ss)) = terminal_node (c + 1 + length ss) ''end''"
  "n_id (hd (fst (createNodes c ss))) \<notin> n_id ` set (tl (fst (createNodes c ss)))"
proof -
  let ?N = "fst (createNodes c ss)"
  show ne: "?N \<noteq> []" and h: "hd ?N = terminal_node c ''start''"
    and "last ?N = terminal_node (c + 1 + length ss) ''end''"
    by (simp_all add: createNodes_eq)
  from ne have "map n_id ?N = n_id (hd ?N) # map n_id (tl ?N)" by (cases ?N) auto
  with createNodes_distinct [of c ss] have "n_id (hd ?N) \<notin> set (map n_id (tl ?N))"
    by (metis distinct.simps(2))
  then show "n_id (hd ?N) \<notin> n_id ` set (tl ?N)" by simp
qed

lemma createNodes_filters:
  "filter (\<lambda>n. n_shape n = ''ellipse'') (fst (createNodes c ss)) =
     [hd (fst (createNodes c ss)), last (fst (createNodes c ss))]"
  "filter (\<lambda>n. n_type n = ''start'') (fst (createNodes c ss)) = [hd (fst (createNodes c ss))]"
  "filter (\<lambda>n. n_type n = ''end'') (fst (createNodes c ss)) = [last (fst (createNodes c ss))]"
  by (simp_all add: createNodes_eq filter_empty_conv o_def)

text \<open>
  Claim C3. For every list of statements the graph is built without an error. Its nodes are
  a start node, one node for each statement and an end node, with distinct identifiers; the
  start and the end node are the only two of terminal shape (\<open>ellipse\<close>), and the only ones of
  their types. Every connection joins two nodes of the graph, none arrives at the start node,
  every node but the end node has a connection that leaves it, and there are at least as
  many connections as nodes less one.
\<close>

theorem graph_shape:
  "\<exists>g. build_graph ss = Inr g
     \<and> length (g_nodes g) = length ss + 2
     \<and> map (n_statement \<circ> (!) (g_nodes g)) [1..<length ss + 1] = map Some ss
     \<and> distinct (map n_id (g_nodes g))
     \<and> n_type (hd (g_nodes g)) = ''start'' \<and> n_type (last (g_nodes g)) = ''end''
     \<and> filter (\<lambda>n. n_shape n = ''ellipse'') (g_nodes g) = [hd (g_nodes g), last (g_nodes g)]
     \<and> filter (\<lambda>n. n_type n = ''start'') (g_nodes g) = [hd (g_nodes g)]
     \<and> filter (\<lambda>n. n_type n = ''end'') (g_nodes g) = [last (g_nodes g)]
     \<and> (\<forall>e \<in> set (g_connections g).
          c_from e \<in> n_id ` set (g_nodes g) \<and> c_to e \<in> n_id ` set (g_nodes g))
     \<and> (\<forall>e \<in> set (g_connections g). c_to e \<noteq> n_id (hd (g_nodes g)))
     \<and> (\<forall>n \<in> set (butlast (g_nodes g)). \<exists>e \<in> set (g_connections g). c_from e = n_id n)
     \<and> length (g_nodes g) - 1 \<le> length (g_connections g)"
proof -
  let ?N = "fst (createNodes 1 ss)"
  let ?E = "concat (map (edges_at ?N) [0..<length ss + 1])"
  let ?g = "\<lparr>g_nodes = ?N, g_connections = ?E\<rparr>"
  have g: "build_graph ss = Inr ?g" by (rule build_graph_eq)
  have len: "length ?N = length ss + 2" by simp
  have stm: "map (n_statement \<circ> (!) ?N) [1..<length ss + 1] = map Some ss"
  proof (rule nth_equalityI)
    show "length (map (n_statement \<circ> (!) ?N) [1..<length ss + 1]) = length (map Some ss)"
      by (simp del: upt_Suc)
  next
    fix j assume "j < length (map (n_statement \<circ> (!) ?N) [1..<length ss + 1])"
    then have j: "j < length ss" by (simp del: upt_Suc)
    then have "[1..<length ss + 1] ! j = Suc j" by (simp del: upt_Suc)
    with j show "map (n_statement \<circ> (!) ?N) [1..<length ss + 1] ! j = map Some ss ! j"
      by (simp add: createNodes_nth del: upt_Suc)
  qed
  have dist: "distinct (map n_id ?N)" by (rule createNodes_distinct)
  have ty: "n_type (hd ?N) = ''start''" "n_type (last ?N) = ''end''"
    by (simp_all add: createNodes_hd_tl)
  have ends: "\<forall>e \<in> set ?E. c_from e \<in> n_id ` set ?N \<and> c_to e \<in> n_id ` set ?N"
  proof
    fix e assume "e \<in> set ?E"
    from graph_edges_cases [OF this] obtain i where i: "i < length ss + 1" "conn_ok ?N i e" by blast
    then have "?N ! i \<in> set ?N" by simp
    then have "n_id (?N ! i) \<in> n_id ` set ?N" by (rule imageI)
    with i(2) later_ids_nodes [of ?N i] show "c_from e \<in> n_id ` set ?N \<and> c_to e \<in> n_id ` set ?N"
      by (auto simp: conn_ok_def)
  qed
  have indeg: "\<forall>e \<in> set ?E. c_to e \<noteq> n_id (hd ?N)"
  proof
    fix e assume "e \<in> set ?E"
    from graph_edges_cases [OF this] obtain i where i: "i < length ss + 1" "conn_ok ?N i e" by blast
    from i(2) consider "c_to e \<in> later_ids ?N i" | "c_to e = n_id (?N ! i)" "loop_type (?N ! i)"
      by (auto simp: conn_ok_def)
    then have "c_to e \<in> n_id ` set (tl ?N)"
    proof cases
      case 1
      with later_ids_tail [OF createNodes_hd_tl(1), of 1 ss i] show ?thesis by blast
    next
      case 2
      have "\<not> loop_type (?N ! 0)" by (simp add: createNodes_nth loop_type_def)
      with 2(2) have "i \<noteq> 0" by (cases i) auto
      then obtain k where k: "i = Suc k" by (cases i) auto
      with i(1) have "?N ! i = tl ?N ! k" "k < length (tl ?N)"
        by (simp_all add: nth_tl)
      then have "?N ! i \<in> set (tl ?N)" by (metis nth_mem)
      with 2(1) show ?thesis by blast
    qed
    with createNodes_hd_tl(4) [of 1 ss] show "c_to e \<noteq> n_id (hd ?N)" by metis
  qed
  have outdeg: "\<forall>n \<in> set (butlast ?N). \<exists>e \<in> set ?E. c_from e = n_id n"
  proof
    fix n assume "n \<in> set (butlast ?N)"
    then obtain i where i: "i < length (butlast ?N)" "n = butlast ?N ! i"
      by (auto simp: in_set_conv_nth)
    then have i1: "i < length ss + 1" and n: "n = ?N ! i" by (simp_all add: nth_butlast)
    from createNodes_edges(2,3) [OF i1, of 1]
    have "hd (edges_at ?N i) \<in> set (edges_at ?N i)" "c_from (hd (edges_at ?N i)) = n_id n"
      using n by simp_all
    moreover have "set (edges_at ?N i) \<subseteq> set ?E" using i1 by (auto simp del: upt_Suc)
    ultimately show "\<exists>e \<in> set ?E. c_from e = n_id n" by blast
  qed
  have "\<forall>i \<in> set [0..<length ss + 1]. edges_at ?N i \<noteq> []"
    using createNodes_edges(2) by (auto simp del: upt_Suc)
  from length_concat_ge [OF this] have cnt: "length ?N - 1 \<le> length ?E" by (simp del: upt_Suc)
  show ?thesis
    apply (rule exI [of _ ?g])
    apply (simp only: graph.simps)
    apply (intro conjI g len stm dist ty createNodes_filters ends indeg outdeg cnt)
    done
qed

theorem graph_shape_witness:
  "map n_id (g_nodes (projr (build_graph (a_statements (projr (parseCode ''javascript'' branch_text))))))
     = [''A1'', ''A2'', ''A3'', ''A4'', ''A5'']
   \<and> map (\<lambda>e. (c_from e, c_to e))
        (g_connections (projr (build_graph (a_statements (projr (parseCode ''javascript'' branch_text))))))
     = [(''A1'', ''A2''), (''A2'', ''A3''), (''A2'', ''A4''), (''A3'', ''A5''), (''A4'', ''A5'')]
   \<and> length (g_nodes (projr (build_graph (a_statements (projr (parseCode ''javascript'' branch_text)))))) - 1
       \<le> length (g_connections (projr (build_graph (a_statements (projr (parseCode ''javascript'' branch_text))))))"
proof -
  let ?ss = "a_statements (projr (parseCode ''javascript'' branch_text))"
  have n: "map n_id (g_nodes (projr (build_graph ?ss))) = [''A1'', ''A2'', ''A3'', ''A4'', ''A5'']"
    by code_simp
  have e: "map (\<lambda>e. (c_from e, c_to e)) (g_connections (projr (build_graph ?ss)))
     = [(''A1'', ''A2''), (''A2'', ''A3''), (''A2'', ''A4''), (''A3'', ''A5''), (''A4'', ''A5'')]"
    by code_simp
  from graph_shape [of ?ss] obtain g where
    "build_graph ?ss = Inr g" "length (g_nodes g) - 1 \<le> length (g_connections g)" by blast
  then have "length (g_nodes (projr (build_graph ?ss))) - 1 \<le> length (g_connections (projr (build_graph ?ss)))"
    by simp
  with n e show ?thesis by simp
qed

subsection \<open>Return statements\<close>

lemma createNodes_id_nth:
  "j < length ss + 2 \<Longrightarrow> n_id (fst (createNodes c ss) ! j) = node_id (c + j)"
proof -
  assume j: "j < length ss + 2"
  then have "n_id (fst (createNodes c ss) ! j) = map n_id (fst (createNodes c ss)) ! j" by simp
  also have "\<dots> = map (\<lambda>j. node_id (c + j)) [0..<length ss + 2] ! j"
    by (simp only: createNodes_ids)
  also have "\<dots> = node_id (c + j)" using j by (simp del: upt_Suc)
  finally show ?thesis .
qed

theorem return_keeps_sequential_edge_counterexample:
  "g_connections (projr (build_graph (a_statements (projr (parseCode ''javascript'' return_text)))))
     = [plain ''A1'' ''A2'', plain ''A2'' ''A4'', plain ''A3'' ''A4'']
   \<and> plain ''A2'' ''A3'' \<notin>
       set (g_connections (projr (build_graph (a_statements (projr (parseCode ''javascript'' return_text))))))"
proof -
  have "g_connections (projr (build_graph (a_statements (projr (parseCode ''javascript'' return_text)))))
     = [plain ''A1'' ''A2'', plain ''A2'' ''A4'', plain ''A3'' ''A4'']"
    by code_simp
  then show ?thesis by (simp add: plain_def)
qed

text \<open>
  Claim C4, amended. The node of a return statement gets, in its own turn of the connection
  loop, exactly one connection, straight to the end node: it takes the place of the
  connection to the next node. Every other connection that leaves the node is a \<open>Loop\<close>
  connection that a loop before it draws back to itself.
\<close>

theorem return_edge_replaces_sequential:
  "i < length ss \<and> s_type (ss ! i) = TReturn \<longrightarrow>
   (\<exists>g. build_graph ss = Inr g
      \<and> n_statement (g_nodes g ! (i + 1)) = Some (ss ! i)
      \<and> connections_at (g_nodes g) (i + 1) =
          Inr [plain (n_id (g_nodes g ! (i + 1))) (n_id (last (g_nodes g)))]
      \<and> plain (n_id (g_nodes g ! (i + 1))) (n_id (last (g_nodes g))) \<in> set (g_connections g)
      \<and> (\<forall>e \<in> set (g_connections g). c_from e = n_id (g_nodes g ! (i + 1)) \<longrightarrow>
           e = plain (n_id (g_nodes g ! (i + 1))) (n_id (last (g_nodes g))) \<or> c_label e = ''Loop''))"
proof
  assume h: "i < length ss \<and> s_type (ss ! i) = TReturn"
  let ?N = "fst (createNodes 1 ss)"
  let ?E = "concat (map (edges_at ?N) [0..<length ss + 1])"
  let ?g = "\<lparr>g_nodes = ?N, g_connections = ?E\<rparr>"
  let ?r = "plain (n_id (?N ! (i + 1))) (n_id (last ?N))"
  from h have i: "i < length ss" and ret: "s_type (ss ! i) = TReturn" by simp_all
  have stm: "n_statement (?N ! (i + 1)) = Some (ss ! i)" using i by (simp add: createNodes_nth)
  have at: "connections_at ?N (i + 1) = Inr [?r]"
    by (rule connections_at_return)
      (use i ret in \<open>simp_all add: createNodes_nth loop_type_def createNodes_hd_tl\<close>)
  then have ea: "edges_at ?N (i + 1) = [?r]" by (simp add: edges_at_def)
  have mem: "?r \<in> set ?E"
    by (rule in_concat_upt [of "i + 1"]) (use i ea in simp_all)
  have only: "\<forall>e \<in> set ?E. c_from e = n_id (?N ! (i + 1)) \<longrightarrow> e = ?r \<or> c_label e = ''Loop''"
  proof (intro ballI impI)
    fix e assume e: "e \<in> set ?E" and f: "c_from e = n_id (?N ! (i + 1))"
    from graph_edges_cases [OF e] obtain j where j: "j < length ss + 1"
      "e \<in> set (edges_at ?N j)" "conn_ok ?N j e" by blast
    show "e = ?r \<or> c_label e = ''Loop''"
    proof (cases "c_label e = ''Loop''")
      case True
      then show ?thesis ..
    next
      case False
      with j(3) have "c_from e = n_id (?N ! j)" by (auto simp: conn_ok_def)
      with f have "n_id (?N ! j) = n_id (?N ! (i + 1))" by simp
      moreover have "n_id (?N ! j) = node_id (1 + j)"
        by (rule createNodes_id_nth) (use j(1) in simp)
      moreover have "n_id (?N ! (i + 1)) = node_id (1 + (i + 1))"
        by (rule createNodes_id_nth) (use i in simp)
      ultimately have "node_id (1 + j) = node_id (1 + (i + 1))" by metis
      then have "j = i + 1" by simp
      with j(2) ea show ?thesis by simp
    qed
  qed
  show "\<exists>g. build_graph ss = Inr g
      \<and> n_statement (g_nodes g ! (i + 1)) = Some (ss ! i)
      \<and> connections_at (g_nodes g) (i + 1) =
          Inr [plain (n_id (g_nodes g ! (i + 1))) (n_id (last (g_nodes g)))]
      \<and> plain (n_id (g_nodes g ! (i + 1))) (n_id (last (g_nodes g))) \<in> set (g_connections g)
      \<and> (\<forall>e \<in> set (g_connections g). c_from e = n_id (g_nodes g ! (i + 1)) \<longrightarrow>
           e = plain (n_id (g_nodes g ! (i + 1))) (n_id (last (g_nodes g))) \<or> c_label e = ''Loop'')"
    apply (rule exI [of _ ?g])
    apply (simp only: graph.simps)
    apply (intro conjI build_graph_eq stm at mem only)
    done
qed

theorem return_edge_replaces_sequential_witness:
  "0 < length (a_statements (projr (parseCode ''javascript'' return_text)))
   \<and> s_type (a_statements (projr (parseCode ''javascript'' return_text)) ! 0) = TReturn
   \<and> connections_at
        (g_nodes (projr (build_graph (a_statements (projr (parseCode ''javascript'' return_text)))))) 1
       = Inr [plain ''A2'' ''A4'']"
proof -
  let ?ss = "a_statements (projr (parseCode ''javascript'' return_text))"
  have l: "0 < length ?ss" by code_simp
  have t: "s_type (?ss ! 0) = TReturn" by code_simp
  have ids: "n_id (g_nodes (projr (build_graph ?ss)) ! 1) = ''A2''"
    "n_id (last (g_nodes (projr (build_graph ?ss)))) = ''A4''"
    by code_simp+
  from return_edge_replaces_sequential [of 0 ?ss] l t obtain g where g:
    "build_graph ?ss = Inr g"
    "connections_at (g_nodes g) (0 + 1) = Inr [plain (n_id (g_nodes g ! (0 + 1))) (n_id (last (g_nodes g)))]"
    by blast
  from g ids have "connections_at (g_nodes (projr (build_graph ?ss))) 1 = Inr [plain ''A2'' ''A4'']"
    by simp
  with l t show ?thesis by simp
qed

subsection \<open>Cyclomatic complexity\<close>

lemma count_and_or_zero:
  "\<not> includes_str c ''&&'' \<Longrightarrow> \<not> includes_str c ''||'' \<Longrightarrow> count_and_or c = 0"
  by (induction c rule: count_and_or.induct) (auto simp: starts_with_def)

lemma branching_iff:
  "type_name (s_type s) \<in> set [''if'', ''for'', ''while'', ''switch'', ''case''] \<longleftrightarrow> branching s"
  by (cases "s_type s") (simp_all add: branching_def)

lemma complexity_step_eq:
  "complexity_step s c = c + (if branching s then 1 else 0) + count_and_or (condition_text s)"
proof (cases "s_condition s")
  case None
  then show ?thesis
    by (simp add: complexity_step_def Let_def truthy_def condition_text_def branching_iff
        del: set_simps)
next
  case (Some t)
  then show ?thesis
    using count_and_or_zero [of t]
    by (cases "t = []")
      (auto simp add: complexity_step_def Let_def truthy_def condition_text_def branching_iff
        simp del: set_simps)
qed

lemma fold_complexity_step:
  "fold complexity_step ss c =
     c + length (filter branching ss) + sum_list (map (count_and_or \<circ> condition_text) ss)"
  by (induction ss arbitrary: c) (simp_all add: complexity_step_eq)

lemma assignment_or_generic_condition:
  "assignment_or_generic pats line n i = Inr s \<Longrightarrow> s_condition s = None"
  by (auto simp: assignment_or_generic_def split: if_splits sum.splits bool.splits)

lemma analyzeLine_condition:
  assumes "analyzeLine language pats line n i = Inr s" "s_condition s \<noteq> None"
  shows "s_type s = TIf \<or> s_type s = TWhile"
proof -
  consider (var) "pat_test (p_variable pats) line"
    | (fn) "\<not> pat_test (p_variable pats) line" "pat_test (p_function pats) line"
    | (cond) "\<not> pat_test (p_variable pats) line" "\<not> pat_test (p_function pats) line"
        "pat_test (p_if pats) line"
    | (forloop) "\<not> pat_test (p_variable pats) line" "\<not> pat_test (p_function pats) line"
        "\<not> pat_test (p_if pats) line" "pat_test (p_for pats) line"
    | (whileloop) "\<not> pat_test (p_variable pats) line" "\<not> pat_test (p_function pats) line"
        "\<not> pat_test (p_if pats) line" "\<not> pat_test (p_for pats) line" "pat_test (p_while pats) line"
    | (other) "\<not> pat_test (p_variable pats) line" "\<not> pat_test (p_function pats) line"
        "\<not> pat_test (p_if pats) line" "\<not> pat_test (p_for pats) line"
        "\<not> pat_test (p_while pats) line"
    by blast
  then show ?thesis
  proof cases
    case var
    with assms show ?thesis by (auto simp: analyzeLine_def Let_def split: sum.splits)
  next
    case fn
    with assms show ?thesis by (auto simp: analyzeLine_def Let_def split: sum.splits)
  next
    case cond
    with assms show ?thesis by (auto simp: analyzeLine_def Let_def)
  next
    case forloop
    with assms show ?thesis by (auto simp: analyzeLine_def Let_def split: sum.splits)
  next
    case whileloop
    with assms show ?thesis by (auto simp: analyzeLine_def Let_def)
  next
    case other
    with assms show ?thesis
      by (auto simp: analyzeLine_def Let_def dest: assignment_or_generic_condition
          split: sum.splits option.splits if_splits)
  qed
qed

lemma sum_conditions_filter:
  assumes "\<forall>s \<in> set ss. s_condition s \<noteq> None \<longrightarrow> s_type s = TIf \<or> s_type s = TWhile"
  shows "sum_list (map (count_and_or \<circ> condition_text) ss) =
    sum_list (map (count_and_or \<circ> condition_text) (filter (\<lambda>s. s_type s = TIf \<or> s_type s = TWhile) ss))"
  using assms
proof (induction ss)
  case Nil
  show ?case by simp
next
  case (Cons s ss)
  show ?case
  proof (cases "s_type s = TIf \<or> s_type s = TWhile")
    case True
    with Cons show ?thesis by simp
  next
    case False
    with Cons.prems have "s_condition s = None" by auto
    then have "count_and_or (condition_text s) = 0" by (simp add: condition_text_def)
    with False Cons show ?thesis by simp
  qed
qed

theorem while_condition_counts_counterexample:
  "calculateCyclomaticComplexity (projr (parseCode ''javascript'' while_text)) = 3
   \<and> claimed_complexity (a_statements (projr (parseCode ''javascript'' while_text))) = 2"
  by code_simp

text \<open>
  Claim C1, amended. Whenever parsing a text returns an analysis, its cyclomatic complexity
  is 1, plus the number of statements that are a conditional, a for loop or a while loop,
  plus the number of \<open>&&\<close> and \<open>||\<close> tokens in the condition text of every statement that has
  one: the conditionals and the while loops alike. Parsing returns an analysis for every
  text in every language that names one of the four profiles or falls back to the default
  one.
\<close>

theorem cyclomatic_complexity_formula:
  "(parseCode language code = Inr a \<longrightarrow>
      calculateCyclomaticComplexity a =
         1 + length (filter branching (a_statements a))
           + sum_list (map (count_and_or \<circ> condition_text)
               (filter (\<lambda>s. s_type s = TIf \<or> s_type s = TWhile) (a_statements a)))
      \<and> m_cyclomaticComplexity (calculateMetrics a) = calculateCyclomaticComplexity a)
   \<and> (language \<notin> set object_prototype_members \<longrightarrow> (\<exists>r. parseCode language code = Inr r))"
proof (intro conjI impI)
  assume p: "parseCode language code = Inr a"
  note fl = parseCode_sound(2) [OF p]
  have "\<forall>s \<in> set (a_statements a). s_condition s \<noteq> None \<longrightarrow> s_type s = TIf \<or> s_type s = TWhile"
  proof (intro ballI impI)
    fix s assume "s \<in> set (a_statements a)" and c: "s_condition s \<noteq> None"
    with fl have "analyzeLine language (getLanguagePatterns language) (s_code s) (s_line s)
      (s_indent s) = Inr s" by (simp add: from_line_def)
    from analyzeLine_condition [OF this c] show "s_type s = TIf \<or> s_type s = TWhile" .
  qed
  from sum_conditions_filter [OF this]
  show "calculateCyclomaticComplexity a =
         1 + length (filter branching (a_statements a))
           + sum_list (map (count_and_or \<circ> condition_text)
               (filter (\<lambda>s. s_type s = TIf \<or> s_type s = TWhile) (a_statements a)))"
    by (simp add: calculateCyclomaticComplexity_def fold_complexity_step)
  show "m_cyclomaticComplexity (calculateMetrics a) = calculateCyclomaticComplexity a"
    by (simp add: calculateMetrics_def Let_def metrics.defs)
next
  assume "language \<notin> set object_prototype_members"
  from parseCode_ok [OF this, of code] show "\<exists>r. parseCode language code = Inr r" by blast
qed

theorem cyclomatic_complexity_formula_witness:
  "''javascript'' \<notin> set object_prototype_members
   \<and> parseCode ''javascript'' while_text = Inr (projr (parseCode ''javascript'' while_text))
   \<and> calculateCyclomaticComplexity (projr (parseCode ''javascript'' while_text)) = 3
   \<and> length (filter branching (a_statements (projr (parseCode ''javascript'' while_text)))) = 1
   \<and> sum_list (map (count_and_or \<circ> condition_text)
        (filter (\<lambda>s. s_type s = TIf \<or> s_type s = TWhile)
          (a_statements (projr (parseCode ''javascript'' while_text))))) = 1"
proof -
  let ?a = "projr (parseCode ''javascript'' while_text)"
  have l: "''javascript'' \<notin> set object_prototype_members" by (rule profiles_not_inherited)
  note t = cyclomatic_complexity_formula [of "''javascript''" while_text ?a]
  from t l have p: "parseCode ''javascript'' while_text = Inr ?a" by auto
  have b: "length (filter branching (a_statements ?a)) = 1" by code_simp
  have c: "calculateCyclomaticComplexity ?a = 3" by code_simp
  from t p b c have "sum_list (map (count_and_or \<circ> condition_text)
        (filter (\<lambda>s. s_type s = TIf \<or> s_type s = TWhile) (a_statements ?a))) = 1"
    by auto
  with l p b c show ?thesis by simp
qed

subsection \<open>The estimate of the time complexity and the quality score\<close>

lemma is_loop_iff: "type_name (s_type s) \<in> set [''for'', ''while''] \<longleftrightarrow> is_loop s"
  by (cases "s_type s") (simp_all add: is_loop_def)

lemma depth_step_eq:
  "depth_step s (m, d) = (if is_loop s then (max m (d + 1), d + 1) else (m, d))"
  by (simp add: depth_step_def previousIndent_def is_loop_iff del: set_simps)

lemma fold_depth_step:
  "d \<le> m \<Longrightarrow> fold depth_step ss (m, d) =
     (max m (d + length (filter is_loop ss)), d + length (filter is_loop ss))"
proof (induction ss arbitrary: m d)
  case Nil
  then show ?case by simp
next
  case (Cons s ss)
  show ?case
  proof (cases "is_loop s")
    case True
    have "d + 1 \<le> max m (d + 1)" by simp
    from Cons.IH [OF this] True show ?thesis by (simp add: depth_step_eq max.assoc)
  next
    case False
    with Cons show ?thesis by (simp add: depth_step_eq)
  qed
qed

lemma estimate_counts_all_loops:
  "estimateTimeComplexity a = complexity_text (length (filter is_loop (a_statements a)))"
  by (simp add: estimateTimeComplexity_def fold_depth_step)

text \<open>
  Claim C2. For a text with two while loops one after the other, both at indentation 0 and
  neither inside the other, the estimate is \<open>O(n\<^sup>2)\<close>: the counter of the loop depth is never
  decremented, because the test that should decrement it reads a property of the statement
  that nothing assigns.
\<close>

theorem sequential_loops_estimate:
  "map (\<lambda>s. (s_type s, s_indent s)) (a_statements (projr (parseCode ''javascript'' two_loops_text)))
     = [(TWhile, 0), (TStatement, 1), (TStatement, 0), (TWhile, 0), (TStatement, 1), (TStatement, 0)]
   \<and> estimateTimeComplexity (projr (parseCode ''javascript'' two_loops_text)) = ''O(n'' @ [CHR 0xB2] @ '')''"
  by code_simp

lemma no_comment_type: "type_name t \<noteq> ''comment''"
  by (cases t) simp_all

lemma ratio_is_statement_count:
  "calculateCodeCommentRatio a = of_nat (length (a_statements a))"
  by (simp add: calculateCodeCommentRatio_def countLinesOfCode_def Let_def no_comment_type)

text \<open>
  Claim C6. For a text of four comment lines and four lines of code, one of them a
  conditional indented by twenty spaces, the quality score is 100: the penalty of 10 for the
  nesting depth 5 is made up by the bonus, although there is one line of code for each
  comment line. The ratio that the score reads is the number of statements, 4, because the
  parser drops the comment lines and no statement has the type \<open>comment\<close>.
\<close>

theorem quality_bonus_ignores_comments:
  "length (filter (isComment (getLanguagePatterns ''javascript'') \<circ> trim)
      (split_on CHR 0x0A commented_text)) = 4
   \<and> length (a_statements (projr (parseCode ''javascript'' commented_text))) = 4
   \<and> m_cyclomaticComplexity (calculateMetrics (projr (parseCode ''javascript'' commented_text))) = 2
   \<and> m_maxNestingDepth (calculateMetrics (projr (parseCode ''javascript'' commented_text))) = 5
   \<and> m_codeToCommentRatio (calculateMetrics (projr (parseCode ''javascript'' commented_text))) = 4
   \<and> m_qualityScore (calculateMetrics (projr (parseCode ''javascript'' commented_text))) = 100"
  by code_simp

subsection \<open>Blank texts\<close>

lemma split_on_spaces:
  "\<forall>c \<in> set code. is_space c \<Longrightarrow> \<forall>l \<in> set (split_on sep code). \<forall>c \<in> set l. is_space c"
proof (induction code)
  case Nil
  show ?case by simp
next
  case (Cons x xs)
  then have ih: "\<forall>l \<in> set (split_on sep xs). \<forall>c \<in> set l. is_space c" and x: "is_space x"
    by simp_all
  have ne: "split_on sep xs \<noteq> []" by (cases xs) (simp_all add: Let_def)
  then have s: "set (split_on sep xs) = insert (hd (split_on sep xs)) (set (tl (split_on sep xs)))"
    by (cases "split_on sep xs") auto
  with ih have "\<forall>c \<in> set (hd (split_on sep xs)). is_space c"
    and "\<forall>l \<in> set (tl (split_on sep xs)). \<forall>c \<in> set l. is_space c" by auto
  with ih x show ?case by (auto simp: Let_def)
qed

lemma trim_spaces: "\<forall>c \<in> set l. is_space c \<Longrightarrow> trim l = []"
proof -
  assume "\<forall>c \<in> set l. is_space c"
  then have "dropWhile is_space l = []" by simp
  then show ?thesis by (simp add: trim_def del: dropWhile_eq_Nil_conv)
qed

lemma parse_lines_blank:
  "\<forall>l \<in> set ls. trim l = [] \<Longrightarrow> parse_lines language pats ls n a = Inr a"
  by (induction ls arbitrary: n) (simp_all add: Let_def)

lemma parseCode_blank:
  assumes "\<forall>c \<in> set code. is_space c"
  shows "parseCode language code =
    Inr \<lparr>a_language = language, a_totalLines = length (split_on CHR 0x0A code), a_statements = [],
         a_variables = [], a_functions = [], a_controlStructures = [], a_complexity = 0\<rparr>"
proof -
  from split_on_spaces [OF assms] have "\<forall>l \<in> set (split_on CHR 0x0A code). trim l = []"
    using trim_spaces by blast
  from parse_lines_blank [OF this] show ?thesis by (simp add: parseCode_def Let_def)
qed

lemma build_graph_nil:
  "build_graph [] = Inr \<lparr>g_nodes = [terminal_node 1 ''start'', terminal_node 2 ''end''],
     g_connections = [plain ''A1'' ''A2'']\<rparr>"
  by code_simp

lemma analyse_ok:
  assumes "language \<notin> set object_prototype_members"
  shows "\<exists>r. analyse code language = Inr r"
proof -
  from parseCode_ok [OF assms, of code] obtain a where "parseCode language code = Inr a" by blast
  then show ?thesis by (simp add: analyse_def build_graph_eq del: upt_Suc)
qed

theorem empty_text_estimate_counterexample:
  "fa_timeComplexity (projr (analyse [] ''javascript'')) = ''O(1)''
   \<and> fa_timeComplexity (projr (analyse [] ''javascript'')) \<noteq> ''N/A''"
  by code_simp

text \<open>
  Claim C8, amended. For a text that is empty or has white space only, the analysis returns
  a result and no error: no statement, cyclomatic complexity 1, a graph of the start and the
  end node with the one connection between them, and the time complexity \<open>O(1)\<close>; a new
  analyzer returns that result.
\<close>

theorem blank_text_analysis:
  "(\<forall>c \<in> set code. is_space c) \<longrightarrow>
   (\<exists>r. analyse code language = Inr r
      \<and> a_statements r = []
      \<and> m_totalStatements (fa_metrics r) = 0
      \<and> m_cyclomaticComplexity (fa_metrics r) = 1
      \<and> g_nodes (fa_graph r) = [terminal_node 1 ''start'', terminal_node 2 ''end'']
      \<and> g_connections (fa_graph r) = [plain ''A1'' ''A2'']
      \<and> fa_timeComplexity r = ''O(1)''
      \<and> (\<exists>s. analyzeCode code language new_analyzer = Inr (0, s) \<and> st_objects s 0 = Some r))"
proof
  assume "\<forall>c \<in> set code. is_space c"
  note p = parseCode_blank [OF this, of language]
  let ?a = "\<lparr>a_language = language, a_totalLines = length (split_on CHR 0x0A code),
    a_statements = [], a_variables = [], a_functions = [], a_controlStructures = [],
    a_complexity = 0\<rparr>"
  let ?r = "analysis.extend ?a
    \<lparr>fa_security = analyzeSecurityIssues ?a, fa_timeComplexity = estimateTimeComplexity ?a,
     fa_executionSteps = generateExecutionSteps ?a, fa_metrics = calculateMetrics ?a,
     fa_graph = \<lparr>g_nodes = [terminal_node 1 ''start'', terminal_node 2 ''end''],
       g_connections = [plain ''A1'' ''A2'']\<rparr>\<rparr>"
  have r: "analyse code language = Inr ?r"
    by (simp add: analyse_def p build_graph_nil)
  have 1: "a_statements ?r = []" by (simp add: analysis.defs)
  have 2: "m_totalStatements (fa_metrics ?r) = 0"
    by (simp add: analysis.defs calculateMetrics_def Let_def metrics.defs)
  have 3: "m_cyclomaticComplexity (fa_metrics ?r) = 1"
    by (simp add: analysis.defs calculateMetrics_def Let_def metrics.defs
        calculateCyclomaticComplexity_def)
  have 4: "g_nodes (fa_graph ?r) = [terminal_node 1 ''start'', terminal_node 2 ''end'']"
    "g_connections (fa_graph ?r) = [plain ''A1'' ''A2'']"
    by (simp_all add: analysis.defs)
  have 5: "fa_timeComplexity ?r = ''O(1)''"
    by (simp add: analysis.defs estimateTimeComplexity_def complexity_text_def)
  have 6: "\<exists>s. analyzeCode code language new_analyzer = Inr (0, s) \<and> st_objects s 0 = Some ?r"
    by (simp add: analyzeCode_def new_analyzer_def r Let_def)
  from r 1 2 3 4 5 6 show "\<exists>r. analyse code language = Inr r
      \<and> a_statements r = []
      \<and> m_totalStatements (fa_metrics r) = 0
      \<and> m_cyclomaticComplexity (fa_metrics r) = 1
      \<and> g_nodes (fa_graph r) = [terminal_node 1 ''start'', terminal_node 2 ''end'']
      \<and> g_connections (fa_graph r) = [plain ''A1'' ''A2'']
      \<and> fa_timeComplexity r = ''O(1)''
      \<and> (\<exists>s. analyzeCode code language new_analyzer = Inr (0, s) \<and> st_objects s 0 = Some r)"
    by blast
qed

theorem blank_text_analysis_witness:
  "list_all is_space ('' '' @ [CHR 0x0A] @ ''  '')
   \<and> (\<exists>r. analyse ('' '' @ [CHR 0x0A] @ ''  '') ''python'' = Inr r
      \<and> a_statements r = []
      \<and> m_cyclomaticComplexity (fa_metrics r) = 1
      \<and> g_connections (fa_graph r) = [plain ''A1'' ''A2'']
      \<and> fa_timeComplexity r = ''O(1)'')"
proof -
  have h: "\<forall>c \<in> set ('' '' @ [CHR 0x0A] @ ''  ''). is_space c" by (simp add: is_space_def)
  then have "list_all is_space ('' '' @ [CHR 0x0A] @ ''  '')" by (simp add: list_all_iff)
  moreover from blank_text_analysis [of "'' '' @ [CHR 0x0A] @ ''  ''" "''python''"] h
  have "\<exists>r. analyse ('' '' @ [CHR 0x0A] @ ''  '') ''python'' = Inr r
      \<and> a_statements r = []
      \<and> m_cyclomaticComplexity (fa_metrics r) = 1
      \<and> g_connections (fa_graph r) = [plain ''A1'' ''A2'']
      \<and> fa_timeComplexity r = ''O(1)''" by blast
  ultimately show ?thesis by blast
qed

subsection \<open>The cache\<close>

lemma store_ok_new: "store_ok new_analyzer"
  by (simp add: store_ok_def new_analyzer_def)

lemma store_ok_clearCache: "store_ok st \<Longrightarrow> store_ok (clearCache st)"
  by (simp add: store_ok_def clearCache_def)

lemma store_ok_analyzeCode:
  "store_ok st \<Longrightarrow> analyzeCode code language st = Inr (r, st') \<Longrightarrow> store_ok st'"
  by (auto simp: analyzeCode_def Let_def store_ok_def less_Suc_eq
      split: option.splits sum.splits if_splits)

text \<open>
  Claim C7. Take a store in which every reference is below the next fresh one (as in a new
  analyzer and after every call) and a text whose analysis returns a result, as it does in
  every language that names one of the four profiles or falls back to the default one.
  Analysing the text returns a reference; analysing the same text in the same language again
  returns the same reference and leaves the store, and so every field of the result, as it
  was. After \<open>clearCache\<close> the same query computes the analysis anew and returns a
  reference that was not in use before, different from the first, and the first object is
  left as it was.
\<close>

theorem cache_hit_and_clear:
  "(store_ok st \<and> analyse code language = Inr a \<longrightarrow>
     (\<exists>r1 s1. analyzeCode code language st = Inr (r1, s1)
        \<and> analyzeCode code language s1 = Inr (r1, s1)
        \<and> (\<exists>r2 s2. analyzeCode code language (clearCache s1) = Inr (r2, s2)
              \<and> r2 \<noteq> r1 \<and> st_objects s1 r2 = None
              \<and> st_objects s2 r2 = Some a
              \<and> st_objects s2 r1 = st_objects s1 r1)))
   \<and> (language \<notin> set object_prototype_members \<longrightarrow> (\<exists>r. analyse code language = Inr r))"
proof (intro conjI impI)
  assume h: "store_ok st \<and> analyse code language = Inr a"
  then have ok: "store_ok st" and a: "analyse code language = Inr a" by simp_all
  let ?k = "cache_key code language"
  show "\<exists>r1 s1. analyzeCode code language st = Inr (r1, s1)
      \<and> analyzeCode code language s1 = Inr (r1, s1)
      \<and> (\<exists>r2 s2. analyzeCode code language (clearCache s1) = Inr (r2, s2)
            \<and> r2 \<noteq> r1 \<and> st_objects s1 r2 = None
            \<and> st_objects s2 r2 = Some a
            \<and> st_objects s2 r1 = st_objects s1 r1)"
  proof (cases "st_cache st ?k")
    case (Some r)
    with ok have lt: "r < st_next st" by (simp add: store_ok_def)
    from ok have free: "st_objects st (st_next st) = None" by (auto simp: store_ok_def)
    let ?s2 = "(clearCache st)\<lparr>st_objects := (st_objects st)(st_next st \<mapsto> a),
      st_next := st_next st + 1, st_cache := (Map.empty)(?k \<mapsto> st_next st)\<rparr>"
    have 1: "analyzeCode code language st = Inr (r, st)"
      using Some by (simp add: analyzeCode_def Let_def)
    have 2: "analyzeCode code language (clearCache st) = Inr (st_next st, ?s2)"
      using a by (simp add: analyzeCode_def Let_def clearCache_def)
    have 3: "st_next st \<noteq> r" using lt by simp
    have 4: "st_objects ?s2 (st_next st) = Some a" by simp
    have 5: "st_objects ?s2 r = st_objects st r" using lt by simp
    from 1 2 3 free 4 5 show ?thesis by blast
  next
    case None
    let ?r1 = "st_next st"
    let ?s1 = "st\<lparr>st_objects := (st_objects st)(?r1 \<mapsto> a), st_next := ?r1 + 1,
      st_cache := (st_cache st)(?k \<mapsto> ?r1)\<rparr>"
    let ?s2 = "(clearCache ?s1)\<lparr>st_objects := (st_objects ?s1)(?r1 + 1 \<mapsto> a),
      st_next := ?r1 + 1 + 1, st_cache := (Map.empty)(?k \<mapsto> ?r1 + 1)\<rparr>"
    from ok have free: "st_objects st (?r1 + 1) = None" by (auto simp: store_ok_def)
    have 1: "analyzeCode code language st = Inr (?r1, ?s1)"
      using None a by (simp add: analyzeCode_def Let_def)
    have 2: "analyzeCode code language ?s1 = Inr (?r1, ?s1)"
      by (simp add: analyzeCode_def Let_def)
    have 3: "analyzeCode code language (clearCache ?s1) = Inr (?r1 + 1, ?s2)"
      using a by (simp add: analyzeCode_def Let_def clearCache_def)
    have 4: "?r1 + 1 \<noteq> ?r1" by simp
    have 5: "st_objects ?s1 (?r1 + 1) = None" using free by simp
    have 6: "st_objects ?s2 (?r1 + 1) = Some a" by simp
    have 7: "st_objects ?s2 ?r1 = st_objects ?s1 ?r1" by simp
    from 1 2 3 4 5 6 7 show ?thesis by blast
  qed
next
  assume "language \<notin> set object_prototype_members"
  then show "\<exists>r. analyse code language = Inr r" by (rule analyse_ok)
qed

theorem cache_hit_and_clear_witness:
  "store_ok new_analyzer
   \<and> ''python'' \<notin> set object_prototype_members
   \<and> analyse reassignment ''python'' = Inr (projr (analyse reassignment ''python''))
   \<and> (\<exists>r1 s1. analyzeCode reassignment ''python'' new_analyzer = Inr (r1, s1)
      \<and> analyzeCode reassignment ''python'' s1 = Inr (r1, s1)
      \<and> (\<exists>r2 s2. analyzeCode reassignment ''python'' (clearCache s1) = Inr (r2, s2)
            \<and> r2 \<noteq> r1 \<and> st_objects s1 r2 = None
            \<and> st_objects s2 r2 = Some (projr (analyse reassignment ''python''))
            \<and> st_objects s2 r1 = st_objects s1 r1))"
proof -
  let ?a = "projr (analyse reassignment ''python'')"
  note t = cache_hit_and_clear [of new_analyzer reassignment "''python''" ?a]
  have l: "''python'' \<notin> set object_prototype_members" by (rule profiles_not_inherited)
  from t l have a: "analyse reassignment ''python'' = Inr ?a" by auto
  from t store_ok_new a have "\<exists>r1 s1. analyzeCode reassignment ''python'' new_analyzer = Inr (r1, s1)
      \<and> analyzeCode reassignment ''python'' s1 = Inr (r1, s1)
      \<and> (\<exists>r2 s2. analyzeCode reassignment ''python'' (clearCache s1) = Inr (r2, s2)
            \<and> r2 \<noteq> r1 \<and> st_objects s1 r2 = None
            \<and> st_objects s2 r2 = Some ?a
            \<and> st_objects s2 r1 = st_objects s1 r1)"
    by blast
  with store_ok_new l a show ?thesis by blast
qed

subsection \<open>Security findings\<close>

lemma starts_with_iff: "starts_with s p \<longleftrightarrow> (\<exists>w. s = p @ w)"
proof
  assume "starts_with s p"
  then have "s = p @ drop (length p) s"
    by (metis append_take_drop_id starts_with_def)
  then show "\<exists>w. s = p @ w" ..
next
  assume "\<exists>w. s = p @ w"
  then show "starts_with s p" by (auto simp: starts_with_def)
qed

lemma includes_str_iff: "includes_str s p \<longleftrightarrow> (\<exists>u w. s = u @ p @ w)"
proof (induction s)
  case Nil
  show ?case by auto
next
  case (Cons c cs)
  show ?case
  proof
    assume "includes_str (c # cs) p"
    then consider "starts_with (c # cs) p" | "includes_str cs p" by auto
    then show "\<exists>u w. c # cs = u @ p @ w"
    proof cases
      case 1
      then obtain w where "c # cs = [] @ p @ w" by (auto simp: starts_with_iff)
      then show ?thesis by blast
    next
      case 2
      with Cons.IH obtain u w where "cs = u @ p @ w" by blast
      then have "c # cs = (c # u) @ p @ w" by simp
      then show ?thesis by blast
    qed
  next
    assume "\<exists>u w. c # cs = u @ p @ w"
    then obtain u w where e: "c # cs = u @ p @ w" by blast
    show "includes_str (c # cs) p"
    proof (cases u)
      case Nil
      with e have "\<exists>w. c # cs = p @ w" by auto
      then have "starts_with (c # cs) p" by (simp only: starts_with_iff)
      then show ?thesis by simp
    next
      case (Cons d u')
      with e have "cs = u' @ p @ w" by simp
      with Cons.IH show ?thesis by auto
    qed
  qed
qed

lemma contains_ci_iff: "contains_ci text p \<longleftrightarrow> includes_str (toLowerCase text) p"
proof
  assume "contains_ci text p"
  then obtain u v w where "text = u @ v @ w" "toLowerCase v = p" by (auto simp: contains_ci_def)
  then have "toLowerCase text = toLowerCase u @ p @ toLowerCase w" by (auto simp: toLowerCase_def)
  then show "includes_str (toLowerCase text) p" unfolding includes_str_iff by blast
next
  assume "includes_str (toLowerCase text) p"
  then obtain u' w' where "map lower_char text = u' @ p @ w'"
    unfolding includes_str_iff toLowerCase_def by blast
  then have "\<exists>us vs. text = us @ vs \<and> u' = map lower_char us \<and> p @ w' = map lower_char vs"
    by (simp only: map_eq_append_conv)
  then obtain u r where r: "text = u @ r" "map lower_char r = p @ w'"
    by metis
  have "map lower_char (take (length p) r) = take (length p) (map lower_char r)"
    by (simp add: take_map)
  with r(2) have v: "toLowerCase (take (length p) r) = p" by (simp add: toLowerCase_def)
  from r(1) have "text = u @ take (length p) r @ drop (length p) r" by simp
  with v show "contains_ci text p" unfolding contains_ci_def by blast
qed

lemma fold_append_issues:
  "fold (\<lambda>s acc. acc @ f s) xs acc0 = acc0 @ concat (map f xs)"
  by (induction xs arbitrary: acc0) auto

text \<open>
  Claim C9. A statement whose text contains \<open>eval(\<close>, in any case of letters, gives one
  finding of high severity, and one whose text contains \<open>innerhtml\<close> gives one finding of
  medium severity; the findings of an analysis are those of its statements, in order. The
  risk level is \<open>low\<close> for no finding, \<open>medium\<close> for one or two and \<open>high\<close> for more;
  with exactly one finding it is \<open>medium\<close>.
\<close>

theorem security_findings_and_risk:
  "(\<forall>s. length (filter (\<lambda>i. i_type i = ''eval_usage'' \<and> i_severity i = ''high'') (statement_issues s)) =
          (if contains_ci (s_code s) ''eval('' then 1 else 0)
      \<and> length (filter (\<lambda>i. i_type i = ''innerHTML_usage'' \<and> i_severity i = ''medium'') (statement_issues s)) =
          (if contains_ci (s_code s) ''innerhtml'' then 1 else 0)
      \<and> length (statement_issues s) =
          (if contains_ci (s_code s) ''eval('' then 1 else 0) +
          (if contains_ci (s_code s) ''innerhtml'' then 1 else 0))
   \<and> sec_issues (analyzeSecurityIssues a) = concat (map statement_issues (a_statements a))
   \<and> sec_riskLevel (analyzeSecurityIssues a) =
       (if length (sec_issues (analyzeSecurityIssues a)) = 0 then ''low''
        else if length (sec_issues (analyzeSecurityIssues a)) \<le> 2 then ''medium''
        else ''high'')
   \<and> (length (sec_issues (analyzeSecurityIssues a)) = 1 \<longrightarrow>
        sec_riskLevel (analyzeSecurityIssues a) = ''medium'')"
proof -
  let ?r = "analyzeSecurityIssues a"
  have per: "\<forall>s. length (filter (\<lambda>i. i_type i = ''eval_usage'' \<and> i_severity i = ''high'') (statement_issues s)) =
          (if contains_ci (s_code s) ''eval('' then 1 else 0)
      \<and> length (filter (\<lambda>i. i_type i = ''innerHTML_usage'' \<and> i_severity i = ''medium'') (statement_issues s)) =
          (if contains_ci (s_code s) ''innerhtml'' then 1 else 0)
      \<and> length (statement_issues s) =
          (if contains_ci (s_code s) ''eval('' then 1 else 0) +
          (if contains_ci (s_code s) ''innerhtml'' then 1 else 0)"
    by (simp add: statement_issues_def contains_ci_iff)
  have iss: "sec_issues ?r = concat (map statement_issues (a_statements a))"
    by (simp add: analyzeSecurityIssues_def Let_def fold_append_issues)
  have risk: "sec_riskLevel ?r =
       (if length (sec_issues ?r) = 0 then ''low''
        else if length (sec_issues ?r) \<le> 2 then ''medium'' else ''high'')"
    by (simp add: analyzeSecurityIssues_def Let_def)
  have one: "length (sec_issues ?r) = 1 \<longrightarrow> sec_riskLevel ?r = ''medium''"
    by (simp add: risk)
  from per iss risk one show ?thesis by (intro conjI)
qed

theorem security_findings_and_risk_witness:
  "length (sec_issues (analyzeSecurityIssues (projr (parseCode ''javascript'' ''x = EVAL(y)'')))) = 1 \<and>
   sec_riskLevel (analyzeSecurityIssues (projr (parseCode ''javascript'' ''x = EVAL(y)''))) = ''medium''"
proof -
  have n: "length (sec_issues (analyzeSecurityIssues (projr (parseCode ''javascript'' ''x = EVAL(y)'')))) = 1"
    by code_simp
  from security_findings_and_risk [of "projr (parseCode ''javascript'' ''x = EVAL(y)'')",
      THEN conjunct2, THEN conjunct2, THEN conjunct2] n
  show ?thesis by simp
qed

end
